theory Spec2Isabelle
  imports Complex_Main
begin

section \<open>Errors and configuration\<close>

text \<open>
  Exceptions of the Python source are values. \<open>NonFinite\<close> is not an exception: numpy
  divides a float by zero without raising and goes on with \<open>inf\<close> or \<open>nan\<close>; the
  model, which computes over the reals, stops there and reports that the result has left
  the finite numbers. \<open>NoTopic\<close> is the outcome of a categorical draw for which the
  description of the sampling engine names no topic.
\<close>

datatype error =
  ValueError | ZeroDivisionError | IndexError | KeyError | AssertionError | NonFinite | NoTopic

text \<open>
  The constructor arguments of \<open>LDA\<close>. \<open>alpha\<close>, \<open>eta\<close> and \<open>lamda\<close> are Python
  floats, read here as reals; \<open>n_topics\<close> and \<open>n_iter\<close> are Python ints. The embedding
  lookup \<open>wv[id2word[w]]\<close> is one partial map from word ids to vectors.
\<close>

record config =
  n_topics :: int
  n_iter :: int
  alpha :: real
  eta :: real
  lamda :: real
  refresh :: int
  emb :: "nat \<rightharpoonup> real list"

text \<open>
  \<open>LDA.__init__\<close> (lines 99-122): the fields are stored, then the one check of the
  constructor follows. The random generator and the logging set-up after it are external
  and raise nothing for a seed that is \<open>None\<close>, an int or a generator.
\<close>

definition LDA_init :: "config \<Rightarrow> error + config" where
  "LDA_init c = (if alpha c \<le> 0 \<or> eta c \<le> 0 then Inl ValueError else Inr c)"

section \<open>Arrays\<close>

text \<open>Sequencing of fallible steps: the first error ends the computation.\<close>

definition bind_err :: "error + 'a \<Rightarrow> ('a \<Rightarrow> error + 'b) \<Rightarrow> error + 'b" where
  "bind_err x f = (case x of Inl e \<Rightarrow> Inl e | Inr v \<Rightarrow> f v)"

fun sequence_err :: "(error + 'a) list \<Rightarrow> error + 'a list" where
  "sequence_err [] = Inr []"
| "sequence_err (x # xs) =
     bind_err x (\<lambda>v. bind_err (sequence_err xs) (\<lambda>vs. Inr (v # vs)))"

text \<open>
  The input \<open>X\<close> is a documents by vocabulary matrix of non-negative integer counts,
  a list of rows of one length. \<open>X.shape[1]\<close> is the length of a row (a matrix without
  rows is taken to have no columns) and \<open>X.sum()\<close> is the number of tokens.
\<close>

definition ncols :: "'a list list \<Rightarrow> nat" where
  "ncols X = (case X of [] \<Rightarrow> 0 | r # _ \<Rightarrow> length r)"

definition rect :: "'a list list \<Rightarrow> bool" where
  "rect X = list_all (\<lambda>r. length r = ncols X) X"

definition total :: "nat list list \<Rightarrow> nat" where
  "total X = sum_list (map sum_list X)"

text \<open>
  Element-wise division of a float row by a scalar. numpy raises nothing when the scalar is
  zero; the entries become \<open>inf\<close> or \<open>nan\<close>, which is \<open>NonFinite\<close> here. A row without
  entries is divided without any division taking place.
\<close>

definition div_row :: "real list \<Rightarrow> real \<Rightarrow> error + real list" where
  "div_row xs s =
     (if xs = [] then Inr [] else if s = 0 then Inl NonFinite else Inr (map (\<lambda>x. x / s) xs))"

text \<open>\<open>A /= np.sum(A, axis=1)[:, np.newaxis]\<close>: every row is divided by its own sum.\<close>

definition normalize_rows :: "real list list \<Rightarrow> error + real list list" where
  "normalize_rows m = sequence_err (map (\<lambda>r. div_row r (sum_list r)) m)"

text \<open>
  \<open>(self.nzw_ + self.eta).astype(float)\<close> followed by the row normalisation: the
  Dirichlet-smoothed topic-word estimate (lines 288-289, 360-361, 392-393).
\<close>

definition smoothed_rows :: "real \<Rightarrow> int list list \<Rightarrow> error + real list list" where
  "smoothed_rows e m = normalize_rows (map (map (\<lambda>n. real_of_int n + e)) m)"

text \<open>
  \<open>a[i] += v\<close> and \<open>a[i, j] += v\<close> on integer count arrays, with the index check that
  numpy makes (all indices of this program are non-negative). The addition is the one of the
  integers: numpy's addition of \<open>np.intc\<close> wraps at \<open>2^31\<close> and agrees with it as long as
  the counters stay below \<open>2^31\<close>, which they do for a matrix of fewer than \<open>2^31\<close>
  tokens.
\<close>

definition bump1 :: "int list \<Rightarrow> nat \<Rightarrow> int \<Rightarrow> error + int list" where
  "bump1 a i v = (if i < length a then Inr (a[i := a ! i + v]) else Inl IndexError)"

definition bump2 :: "int list list \<Rightarrow> nat \<Rightarrow> nat \<Rightarrow> int \<Rightarrow> error + int list list" where
  "bump2 m i j v =
     (if i < length m \<and> j < length (m ! i)
      then Inr (m[i := (m ! i)[j := m ! i ! j + v]]) else Inl IndexError)"

section \<open>Count state and initialisation\<close>

text \<open>
  The sufficient statistics and the token stream of the model (\<open>nzw_\<close>, \<open>ndz_\<close>,
  \<open>nz_\<close>, \<open>WS\<close>, \<open>DS\<close>, \<open>ZS\<close>). The counters are \<open>np.intc\<close>, 32-bit integers
  that wrap at \<open>2^31\<close>. Every counter is a number of tokens of the matrix, so that no
  addition wraps as long as the matrix holds fewer than \<open>2^31\<close> tokens; the counters are
  read as unbounded integers, and what is proved of their values is stated for such matrices
  only.
\<close>

record counts =
  nzw :: "int list list"
  ndz :: "int list list"
  nz :: "int list"
  WS :: "nat list"
  DS :: "nat list"
  ZS :: "nat list"

text \<open>
  The fitted object. \<open>components_\<close> and \<open>topic_word_new\<close> are references to float
  arrays: the heap is the list of the arrays allocated so far and a reference is a position
  in it. An assignment \<open>self.topic_word_new = self.components_\<close> copies the reference,
  not the array. \<open>loglikelihoods_\<close> only records values of the external
  \<open>lda._lda._loglikelihood\<close>, which reads the counts and changes nothing; it is left out.
\<close>

record lda = counts +
  heap :: "real list list list"
  components :: nat
  topic_word_new :: nat

text \<open>
  Modelled from the spec: \<open>lda.utils.matrix_to_lists\<close> is not part of the source at hand.
  The spec (4.1) expands the matrix into one (word, document) pair per unit count, row-major
  over documents, then words.
\<close>

definition matrix_to_lists :: "nat list list \<Rightarrow> nat list \<times> nat list" where
  "matrix_to_lists X =
     (concat (map (\<lambda>row. concat (map (\<lambda>w. replicate (row ! w) w) [0..<length row])) X),
      concat (map (\<lambda>d. replicate (sum_list (X ! d)) d) [0..<length X]))"

text \<open>
  The three increments of lines 400-402, also the building block of a sampling step: the
  token of word \<open>w\<close> in document \<open>d\<close> enters (\<open>v = 1\<close>) or leaves (\<open>v = -1\<close>) topic
  \<open>z\<close>.
\<close>

definition add_token ::
  "nat \<Rightarrow> nat \<Rightarrow> nat \<Rightarrow> int \<Rightarrow> ('a counts_scheme) \<Rightarrow> error + 'a counts_scheme" where
  "add_token d w z v s =
     bind_err (bump2 (ndz s) d z v) (\<lambda>ndz'.
     bind_err (bump2 (nzw s) z w v) (\<lambda>nzw'.
     bind_err (bump1 (nz s) z v) (\<lambda>nz'.
     Inr (s\<lparr>nzw := nzw', ndz := ndz', nz := nz'\<rparr>))))"

text \<open>
  The loop of lines 396-402 over the token indices. \<open>i % n_topics\<close> on Python ints
  raises \<open>ZeroDivisionError\<close> for \<open>n_topics = 0\<close>.
\<close>

fun init_tokens :: "int \<Rightarrow> nat list \<Rightarrow> ('a counts_scheme) \<Rightarrow> error + 'a counts_scheme" where
  "init_tokens K [] s = Inr s"
| "init_tokens K (i # is) s =
     (if length (WS s) \<le> i \<or> length (DS s) \<le> i then Inl IndexError
      else if K = 0 then Inl ZeroDivisionError
      else let w = WS s ! i; d = DS s ! i; z_new = nat (int i mod K) in
        bind_err (add_token d w z_new 1 (s\<lparr>ZS := (ZS s)[i := z_new]\<rparr>))
          (init_tokens K is))"

text \<open>
  \<open>_initialize\<close> (lines 374-403). \<open>np.zeros\<close> raises \<open>ValueError\<close> for a negative
  dimension. \<open>ZS\<close> starts as an uninitialised array of the length of \<open>WS\<close>; the loop
  writes every position, so the model starts it with zeros. The smoothed estimate of the
  empty counts is allocated once and both \<open>components_\<close> and \<open>topic_word_new\<close> refer
  to it.
\<close>

definition initialize :: "config \<Rightarrow> nat list list \<Rightarrow> error + lda" where
  "initialize c X =
     (let W = ncols X; D = length X; N = total X in
      if n_topics c < 0 then Inl ValueError
      else
        let K = nat (n_topics c);
            (ws, ds) = matrix_to_lists X
        in bind_err (smoothed_rows (eta c) (replicate K (replicate W 0))) (\<lambda>comp.
           if N \<noteq> length ws then Inl AssertionError
           else init_tokens (n_topics c) [0..<N]
             \<lparr>nzw = replicate K (replicate W 0), ndz = replicate D (replicate K 0),
              nz = replicate K 0, WS = ws, DS = ds, ZS = replicate (length ws) 0,
              heap = [comp], components = 0, topic_word_new = 0\<rparr>))"

section \<open>Perplexity\<close>

text \<open>\<open>a[i, j]\<close> on a two-dimensional array, with numpy's index check.\<close>

definition get2 :: "'a list list \<Rightarrow> nat \<Rightarrow> nat \<Rightarrow> error + 'a" where
  "get2 m i j = (if i < length m \<and> j < length (m ! i) then Inr (m ! i ! j) else Inl IndexError)"

text \<open>\<open>math.log\<close> raises \<open>ValueError\<close> (math domain error) outside the positive numbers.\<close>

definition py_log :: "real \<Rightarrow> error + real" where
  "py_log x = (if x \<le> 0 then Inl ValueError else Inr (ln x))"

text \<open>
  \<open>perplexity\<close> (lines 240-262), loop by loop: the probability of word \<open>i\<close> in document
  \<open>d\<close> summed over the topics \<open>range(n_topics)\<close>, the log-probability of a document over
  its non-zero entries, the sum over the documents, and the final \<open>exp(-sum/N)\<close>, where the
  division raises \<open>ZeroDivisionError\<close> for a matrix without tokens. \<open>self.doc_topic_\<close> and
  \<open>self.topic_word_\<close> are arguments. \<open>X[d, i]\<close> is read inside the shape of \<open>X\<close>.
  The code computes the sums, \<open>math.log\<close> and \<open>math.exp\<close> in doubles; the value here is
  the real number those doubles approximate, and nothing is said of the last digits of the
  code's result. What \<open>_fit\<close> needs of the call is whether it raises.
\<close>

fun prob_word ::
  "real list list \<Rightarrow> real list list \<Rightarrow> nat \<Rightarrow> nat \<Rightarrow> nat list \<Rightarrow> real \<Rightarrow> error + real" where
  "prob_word dt tw d i [] acc = Inr acc"
| "prob_word dt tw d i (k # ks) acc =
     bind_err (get2 dt d k) (\<lambda>a.
     bind_err (get2 tw k i) (\<lambda>b.
     prob_word dt tw d i ks (acc + a * b)))"

fun prob_doc ::
  "int \<Rightarrow> real list list \<Rightarrow> real list list \<Rightarrow> nat list list \<Rightarrow> nat \<Rightarrow> nat list \<Rightarrow> real
     \<Rightarrow> error + real" where
  "prob_doc K dt tw X d [] acc = Inr acc"
| "prob_doc K dt tw X d (i # is) acc =
     (if X ! d ! i \<noteq> 0
      then bind_err (prob_word dt tw d i [0..<nat K] 0) (\<lambda>p.
           bind_err (py_log p) (\<lambda>l.
           prob_doc K dt tw X d is (acc + real (X ! d ! i) * l)))
      else prob_doc K dt tw X d is acc)"

fun perplexity_docs ::
  "int \<Rightarrow> real list list \<Rightarrow> real list list \<Rightarrow> nat list list \<Rightarrow> nat list \<Rightarrow> real
     \<Rightarrow> error + real" where
  "perplexity_docs K dt tw X [] acc = Inr acc"
| "perplexity_docs K dt tw X (d # ds) acc =
     bind_err (prob_doc K dt tw X d [0..<ncols X] 0) (\<lambda>p.
     perplexity_docs K dt tw X ds (acc + p))"

definition perplexity ::
  "int \<Rightarrow> real list list \<Rightarrow> real list list \<Rightarrow> nat list list \<Rightarrow> error + real" where
  "perplexity K dt tw X =
     bind_err (perplexity_docs K dt tw X [0..<length X] 0) (\<lambda>s.
     if total X = 0 then Inl ZeroDivisionError else Inr (exp (- s / real (total X))))"

section \<open>Coherence scores\<close>

text \<open>\<open>list.index\<close>: the first position of an element that is in the list.\<close>

fun index :: "'a list \<Rightarrow> 'a \<Rightarrow> nat" where
  "index [] x = 0"
| "index (y # ys) x = (if y = x then 0 else Suc (index ys x))"

text \<open>
  The tally \<open>count\<close> of lines 295-302, an array of shape
  \<open>(n_topics*12, D, n_topics)\<close> that starts at zero: a function of its three indices.
  \<open>word_id\<close> is \<open>topic_most.tolist()\<close>, one row of 12 word ids per topic. The loop runs
  over the token indices \<open>range(int(X.sum()))\<close>; indexing past an array raises
  \<open>IndexError\<close>.
\<close>

definition incr3 :: "(nat \<Rightarrow> nat \<Rightarrow> nat \<Rightarrow> nat) \<Rightarrow> nat \<Rightarrow> nat \<Rightarrow> nat \<Rightarrow> nat \<Rightarrow> nat \<Rightarrow> nat \<Rightarrow> nat" where
  "incr3 count a d z = count (a := (count a) (d := (count a d) (z := count a d z + 1)))"

fun count_tokens ::
  "nat list list \<Rightarrow> nat \<Rightarrow> ('a counts_scheme) \<Rightarrow> nat list \<Rightarrow> (nat \<Rightarrow> nat \<Rightarrow> nat \<Rightarrow> nat)
     \<Rightarrow> error + (nat \<Rightarrow> nat \<Rightarrow> nat \<Rightarrow> nat)" where
  "count_tokens word_id D s [] count = Inr count"
| "count_tokens word_id D s (i # is) count =
     (if length (WS s) \<le> i \<or> length (DS s) \<le> i \<or> length (ZS s) \<le> i then Inl IndexError
      else let w = WS s ! i; d = DS s ! i; z = ZS s ! i in
        if length word_id \<le> z then Inl IndexError
        else if w \<in> set (word_id ! z)
        then (if D \<le> d then Inl IndexError
              else count_tokens word_id D s is (incr3 count (index (word_id ! z) w + 12 * z) d z))
        else count_tokens word_id D s is count)"

text \<open>
  Lines 303-314. For topic \<open>i\<close> and rows \<open>l < m\<close> of the tally, the loop over the
  documents counts those where both rows are non-zero (\<open>con_frequency\<close>) and those where
  row \<open>l\<close> is (\<open>self_frequency\<close>). \<open>(con_frequency + 1) / self_frequency\<close> divides two
  Python ints and raises \<open>ZeroDivisionError\<close> for a zero divisor. The pairs are visited
  as the two \<open>range\<close> loops produce them.
\<close>

definition con_frequency :: "(nat \<Rightarrow> nat \<Rightarrow> nat \<Rightarrow> nat) \<Rightarrow> nat \<Rightarrow> nat \<Rightarrow> nat \<Rightarrow> nat \<Rightarrow> nat" where
  "con_frequency count D i l m =
     length (filter (\<lambda>d. count m d i \<noteq> 0 \<and> count l d i \<noteq> 0) [0..<D])"

definition self_frequency :: "(nat \<Rightarrow> nat \<Rightarrow> nat \<Rightarrow> nat) \<Rightarrow> nat \<Rightarrow> nat \<Rightarrow> nat \<Rightarrow> nat" where
  "self_frequency count D i l = length (filter (\<lambda>d. count l d i \<noteq> 0) [0..<D])"

definition ck_pair :: "(nat \<Rightarrow> nat \<Rightarrow> nat \<Rightarrow> nat) \<Rightarrow> nat \<Rightarrow> nat \<Rightarrow> nat \<Rightarrow> nat \<Rightarrow> error + real" where
  "ck_pair count D i l m =
     (if self_frequency count D i l = 0 then Inl ZeroDivisionError
      else py_log ((real (con_frequency count D i l m) + 1) / real (self_frequency count D i l)))"

definition pairs :: "nat \<Rightarrow> (nat \<times> nat) list" where
  "pairs i = concat (map (\<lambda>m. map (\<lambda>l. (l, m)) [i * 12..<m]) [i * 12 + 1..<i * 12 + 12])"

fun ck_pairs ::
  "(nat \<Rightarrow> nat \<Rightarrow> nat \<Rightarrow> nat) \<Rightarrow> nat \<Rightarrow> nat \<Rightarrow> (nat \<times> nat) list \<Rightarrow> real \<Rightarrow> error + real" where
  "ck_pairs count D i [] acc = Inr acc"
| "ck_pairs count D i ((l, m) # ps) acc =
     bind_err (ck_pair count D i l m) (\<lambda>v. ck_pairs count D i ps (acc + v))"

definition ck_topic :: "(nat \<Rightarrow> nat \<Rightarrow> nat \<Rightarrow> nat) \<Rightarrow> nat \<Rightarrow> nat \<Rightarrow> error + real" where
  "ck_topic count D i = ck_pairs count D i (pairs i) 0"

definition ck_all :: "(nat \<Rightarrow> nat \<Rightarrow> nat \<Rightarrow> nat) \<Rightarrow> nat \<Rightarrow> nat \<Rightarrow> error + real list" where
  "ck_all count D K = sequence_err (map (ck_topic count D) [0..<K])"

text \<open>
  The tally and the scores of all topics, in the order of the source. The token indices
  \<open>range(int(X.sum()))\<close> are those of \<open>WS\<close>, whose length \<open>_initialize\<close> asserts to
  be \<open>X.sum()\<close>.
\<close>

definition ck_stage ::
  "nat list list \<Rightarrow> nat \<Rightarrow> nat \<Rightarrow> ('a counts_scheme) \<Rightarrow> error + real list" where
  "ck_stage word_id D K s =
     bind_err (count_tokens word_id D s [0..<length (WS s)] (\<lambda>_ _ _. 0)) (\<lambda>count.
     ck_all count D K)"

text \<open>
  The words of the claim about the scores: a word occurs in a document under a topic if
  some token of the stream has that word, document and assigned topic; the joint count of two
  words is the number of documents where both so occur, the marginal count of a word the
  number of documents where it does.
\<close>

definition occurs :: "('a counts_scheme) \<Rightarrow> nat \<Rightarrow> nat \<Rightarrow> nat \<Rightarrow> bool" where
  "occurs s w d z = (\<exists>i < length (WS s). WS s ! i = w \<and> DS s ! i = d \<and> ZS s ! i = z)"

definition joint_count :: "('a counts_scheme) \<Rightarrow> nat \<Rightarrow> nat \<Rightarrow> nat \<Rightarrow> nat \<Rightarrow> nat" where
  "joint_count s D z w1 w2 = length (filter (\<lambda>d. occurs s w1 d z \<and> occurs s w2 d z) [0..<D])"

definition marginal_count :: "('a counts_scheme) \<Rightarrow> nat \<Rightarrow> nat \<Rightarrow> nat \<Rightarrow> nat" where
  "marginal_count s D z w1 = length (filter (\<lambda>d. occurs s w1 d z) [0..<D])"

text \<open>
  The token stream is well formed when its three arrays have one length and every document
  and topic index is inside the arrays it indexes.
\<close>

definition tokens_ok :: "('a counts_scheme) \<Rightarrow> nat \<Rightarrow> nat \<Rightarrow> bool" where
  "tokens_ok s D K =
     (length (DS s) = length (WS s) \<and> length (ZS s) = length (WS s) \<and>
      list_all (\<lambda>d. d < D) (DS s) \<and> list_all (\<lambda>z. z < K) (ZS s))"

text \<open>Token \<open>i\<close> adds to the entry \<open>(a, d, z)\<close> of the tally.\<close>

definition hit :: "nat list list \<Rightarrow> ('a counts_scheme) \<Rightarrow> nat \<Rightarrow> nat \<Rightarrow> nat \<Rightarrow> nat \<Rightarrow> bool" where
  "hit word_id s a d z i =
     (ZS s ! i = z \<and> DS s ! i = d \<and> WS s ! i \<in> set (word_id ! z) \<and>
      index (word_id ! z) (WS s ! i) + 12 * z = a)"

section \<open>Coherence adjustment\<close>

text \<open>
  Lines 336-352 work on one row of \<open>topic_word_new\<close>, the row of the topic \<open>adjust\<close>,
  with \<open>tm\<close> the row \<open>topic_most[adjust]\<close> of its 12 top words and \<open>min_rele\<close> their
  relevances. \<open>heapq.nsmallest(5, min_rele)\<close> is the first five elements of the sorted list,
  and \<open>min_rele.index\<close> maps each value to its first position, so that equal relevances
  give one position several times.
\<close>

definition min_index :: "real list \<Rightarrow> nat list" where
  "min_index min_rele = map (index min_rele) (take 5 (sort min_rele))"

text \<open>\<open>row[j] *= c\<close> and a read of \<open>a[i]\<close>, with the index check.\<close>

definition scale_at :: "real list \<Rightarrow> nat \<Rightarrow> real \<Rightarrow> error + real list" where
  "scale_at row j c = (if j < length row then Inr (row[j := row ! j * c]) else Inl IndexError)"

definition get1 :: "'a list \<Rightarrow> nat \<Rightarrow> error + 'a" where
  "get1 a i = (if i < length a then Inr (a ! i) else Inl IndexError)"

text \<open>
  The loop of lines 337-344 over \<open>min_index\<close>. In both branches the entry is multiplied
  first and the pool \<open>p_allocate\<close> then receives a term computed from the entry as it is
  after the multiplication.
\<close>

fun penalise ::
  "real list \<Rightarrow> nat list \<Rightarrow> nat list \<Rightarrow> real list \<times> real \<Rightarrow> error + real list \<times> real" where
  "penalise min_rele tm [] (row, p_allocate) = Inr (row, p_allocate)"
| "penalise min_rele tm (i # is) (row, p_allocate) =
     bind_err (get1 tm i) (\<lambda>adjust_id.
     if min_rele ! i > 0
     then bind_err (scale_at row adjust_id (min_rele ! i)) (\<lambda>row'.
          penalise min_rele tm is (row', p_allocate + row' ! adjust_id * (1 - min_rele ! i)))
     else bind_err (scale_at row adjust_id 0) (\<lambda>row'.
          penalise min_rele tm is (row', p_allocate + row' ! adjust_id)))"

text \<open>
  Lines 345-352: the sum of the entries of the top words that were not selected, and their
  rescaling by \<open>1 + p_allocate * entry / p_allocate_sum\<close>, a float division that numpy
  carries out without raising.
\<close>

fun allocate_sum :: "nat list \<Rightarrow> nat list \<Rightarrow> real list \<Rightarrow> nat list \<Rightarrow> real \<Rightarrow> error + real" where
  "allocate_sum mi tm row [] acc = Inr acc"
| "allocate_sum mi tm row (i # is) acc =
     (if i \<notin> set mi
      then bind_err (get1 tm i) (\<lambda>p_id.
           bind_err (get1 row p_id) (\<lambda>x. allocate_sum mi tm row is (acc + x)))
      else allocate_sum mi tm row is acc)"

fun redistribute ::
  "nat list \<Rightarrow> nat list \<Rightarrow> real \<Rightarrow> real \<Rightarrow> nat list \<Rightarrow> real list \<Rightarrow> error + real list" where
  "redistribute mi tm p_allocate p_allocate_sum [] row = Inr row"
| "redistribute mi tm p_allocate p_allocate_sum (i # is) row =
     (if i \<notin> set mi
      then bind_err (get1 tm i) (\<lambda>p_id.
           bind_err (get1 row p_id) (\<lambda>x.
           if p_allocate_sum = 0 then Inl NonFinite
           else bind_err (scale_at row p_id (1 + p_allocate * x / p_allocate_sum))
                  (redistribute mi tm p_allocate p_allocate_sum is)))
      else redistribute mi tm p_allocate p_allocate_sum is row)"

definition reweight :: "real list \<Rightarrow> nat list \<Rightarrow> real list \<Rightarrow> error + real list" where
  "reweight min_rele tm row =
     (let mi = min_index min_rele in
      bind_err (penalise min_rele tm mi (row, 0)) (\<lambda>(row1, p_allocate).
      bind_err (allocate_sum mi tm row1 [0..<12] 0) (\<lambda>p_allocate_sum.
      redistribute mi tm p_allocate p_allocate_sum [0..<12] row1)))"


text \<open>
  Lines 326-334: the relevance of a top word is \<open>1 - cosine(v, total_embedding)\<close>, with
  \<open>v\<close> its embedding and \<open>total_embedding\<close> the mean of the 12 embeddings, accumulated in a
  vector of 100 zeros. A missing word raises \<open>KeyError\<close>, a vector of another length than
  100 is rejected (\<open>ValueError\<close>; the broadcast of a one-element vector is not modelled).
  \<open>scipy.spatial.distance.cosine\<close> is the cosine distance
  \<open>1 - u\<cdot>v / (|u| |v|)\<close>, not finite for a zero vector.
\<close>

definition dot :: "real list \<Rightarrow> real list \<Rightarrow> real" where
  "dot u v = sum_list (map2 (*) u v)"

definition cosine :: "real list \<Rightarrow> real list \<Rightarrow> error + real" where
  "cosine u v =
     (if dot u u * dot v v = 0 then Inl NonFinite
      else Inr (1 - dot u v / sqrt (dot u u * dot v v)))"

definition lookup :: "config \<Rightarrow> nat \<Rightarrow> error + real list" where
  "lookup c w =
     (case emb c w of None \<Rightarrow> Inl KeyError
      | Some v \<Rightarrow> if length v = 100 then Inr v else Inl ValueError)"

definition vadd :: "real list \<Rightarrow> real list \<Rightarrow> real list" where
  "vadd u v = map2 (+) u v"

definition relevances :: "config \<Rightarrow> nat list \<Rightarrow> error + real list" where
  "relevances c tm =
     bind_err (sequence_err (map (\<lambda>i. bind_err (get1 tm i) (lookup c)) [0..<12])) (\<lambda>vs.
     let total_embedding = map (\<lambda>x. x / 12) (foldl vadd (replicate 100 0) vs) in
     sequence_err (map (\<lambda>v. bind_err (cosine v total_embedding) (\<lambda>dist. Inr (1 - dist))) vs))"

text \<open>
  Line 297: \<open>topic_word_[i].argsort()[::-1][0:12]\<close>. The positions are sorted by their
  value (for equal values numpy fixes no order; the stable order stands for it), reversed,
  and the first 12 are assigned to a row of 12 entries: numpy broadcasts a single value and
  raises \<open>ValueError\<close> for any other number of values than 12.
\<close>

definition argsort :: "real list \<Rightarrow> nat list" where
  "argsort row = sort_key (\<lambda>j. row ! j) [0..<length row]"

definition top12 :: "real list \<Rightarrow> error + nat list" where
  "top12 row =
     (let a = take 12 (rev (argsort row)) in
      if length a = 12 then Inr a
      else if length a = 1 then Inr (replicate 12 (a ! 0))
      else Inl ValueError)"

text \<open>
  Lines 315-321: the topic with the least score \<open>ck[i] - (ck_sum - ck[i]) / (n_topics - 1)\<close>,
  the first one among equals. \<open>ck[0]\<close> raises \<open>IndexError\<close> without topics. With one
  topic the float division by zero makes the first score \<open>nan\<close>; it is compared with
  nothing, since the loop from 1 is empty, and \<open>adjust\<close> is 0.
\<close>

definition loo_score :: "real list \<Rightarrow> nat \<Rightarrow> real" where
  "loo_score ck i = ck ! i - (sum_list ck - ck ! i) / (real (length ck) - 1)"

fun select_loop :: "real list \<Rightarrow> nat list \<Rightarrow> real \<times> nat \<Rightarrow> real \<times> nat" where
  "select_loop ck [] (ck_min, adjust) = (ck_min, adjust)"
| "select_loop ck (i # is) (ck_min, adjust) =
     (if loo_score ck i < ck_min then select_loop ck is (loo_score ck i, i)
      else select_loop ck is (ck_min, adjust))"

definition select_adjust :: "real list \<Rightarrow> error + nat" where
  "select_adjust ck =
     (if ck = [] then Inl IndexError
      else Inr (snd (select_loop ck [1..<length ck] (loo_score ck 0, 0))))"

text \<open>
  The adjustment of lines 288-352, run when \<open>it % 2 == 0\<close>. Line 288 allocates a new
  array for the smoothed estimate; lines 290-291 make \<open>topic_word_\<close> and
  \<open>self.topic_word_new\<close> refer to that same array. The rescaling of lines 340-352 writes
  into the array that \<open>self.topic_word_new\<close> refers to.
\<close>

definition adjust_step :: "config \<Rightarrow> nat list list \<Rightarrow> lda \<Rightarrow> error + lda" where
  "adjust_step c X s =
     bind_err (smoothed_rows (eta c) (nzw s)) (\<lambda>comp.
     let a = length (heap s);
         s1 = s\<lparr>heap := heap s @ [comp], components := a, topic_word_new := a\<rparr>;
         topic_word = heap s1 ! components s1
     in
     bind_err (sequence_err (map (\<lambda>i. bind_err (get1 topic_word i) top12)
                 [0..<nat (n_topics c)])) (\<lambda>word_id.
     bind_err (ck_stage word_id (length X) (nat (n_topics c)) s1) (\<lambda>ck.
     bind_err (select_adjust ck) (\<lambda>adjust.
     bind_err (get1 word_id adjust) (\<lambda>tm.
     bind_err (relevances c tm) (\<lambda>min_rele.
     bind_err (get1 (heap s1 ! topic_word_new s1) adjust) (\<lambda>row.
     bind_err (reweight min_rele tm row) (\<lambda>row'.
     Inr (s1\<lparr>heap := (heap s1)[topic_word_new s1 :=
                 (heap s1 ! topic_word_new s1)[adjust := row']]\<rparr>)))))))))"

section \<open>Sampling pass\<close>

text \<open>
  Modelled from the spec: \<open>lda._lda._sample_topics\<close>, the compiled sampling pass, is not
  part of the source at hand; what follows is section 4.2 of the spec. \<open>_sample_topics\<close>
  of the source (lines 416-422) passes it the token stream, the counts, \<open>alpha\<close> repeated
  for every topic, \<open>eta\<close> repeated for every word, the variates, \<open>lamda\<close> and
  \<open>topic_word_new\<close>. The weight of topic \<open>k\<close> for a token of word \<open>w\<close> in document
  \<open>d\<close> blends \<open>(ndz[d][k] + alpha) * (nzw[k][w] + eta[w]) / (nz[k] + sum(eta))\<close> with
  \<open>(ndz[d][k] + alpha) * topic_word_adjusted[k][w]\<close>.
\<close>

definition weight :: "config \<Rightarrow> real list list \<Rightarrow> ('a counts_scheme) \<Rightarrow> nat \<Rightarrow> nat \<Rightarrow> nat \<Rightarrow> error + real" where
  "weight c twa s d w k =
     bind_err (get2 (ndz s) d k) (\<lambda>n_dk.
     bind_err (get2 (nzw s) k w) (\<lambda>n_kw.
     bind_err (get1 (nz s) k) (\<lambda>n_k.
     bind_err (get2 twa k w) (\<lambda>t_kw.
     let eta_vec = replicate (length (nzw s ! k)) (eta c);
         denom = real_of_int n_k + sum_list eta_vec
     in if denom = 0 then Inl NonFinite
        else Inr (lamda c * ((real_of_int n_dk + alpha c) * (real_of_int n_kw + eta_vec ! w) / denom)
                  + (1 - lamda c) * ((real_of_int n_dk + alpha c) * t_kw))))))"

text \<open>
  Modelled from the spec: the categorical draw, the smallest \<open>k\<close> such that the cumulative
  sum of the weights up to \<open>k\<close> exceeds \<open>u = variate * cumulative_total\<close>. The spec
  names no topic when no cumulative sum exceeds \<open>u\<close>.
\<close>

fun first_exceeding :: "real list \<Rightarrow> real \<Rightarrow> real \<Rightarrow> nat \<Rightarrow> nat option" where
  "first_exceeding [] acc u k = None"
| "first_exceeding (x # xs) acc u k =
     (if u < acc + x then Some k else first_exceeding xs (acc + x) u (Suc k))"

definition draw :: "real list \<Rightarrow> real \<Rightarrow> error + nat" where
  "draw ws variate =
     (case first_exceeding ws 0 (variate * sum_list ws) 0 of
        None \<Rightarrow> Inl NoTopic | Some k \<Rightarrow> Inr k)"

text \<open>
  Modelled from the spec: one token of the sweep. Its contribution is removed from the
  counts, the weights are formed, a topic is drawn with the variate of the token (the buffer
  is reused cyclically) and the token is inserted under the drawn topic. The pass visits the
  token indices in order.
\<close>

definition sample_token ::
  "config \<Rightarrow> real list list \<Rightarrow> real list \<Rightarrow> nat \<Rightarrow> ('a counts_scheme) \<Rightarrow> error + 'a counts_scheme" where
  "sample_token c twa rands i s =
     (if length (WS s) \<le> i \<or> length (DS s) \<le> i \<or> length (ZS s) \<le> i then Inl IndexError
      else if rands = [] then Inl IndexError
      else let w = WS s ! i; d = DS s ! i; z = ZS s ! i in
        bind_err (add_token d w z (- 1) s) (\<lambda>s1.
        bind_err (sequence_err (map (weight c twa s1 d w) [0..<nat (n_topics c)])) (\<lambda>ws.
        bind_err (draw ws (rands ! (i mod length rands))) (\<lambda>k.
        add_token d w k 1 (s1\<lparr>ZS := (ZS s1)[i := k]\<rparr>)))))"

fun sample_pass ::
  "config \<Rightarrow> real list list \<Rightarrow> real list \<Rightarrow> nat list \<Rightarrow> ('a counts_scheme) \<Rightarrow> error + 'a counts_scheme" where
  "sample_pass c twa rands [] s = Inr s"
| "sample_pass c twa rands (i # is) s =
     bind_err (sample_token c twa rands i s) (sample_pass c twa rands is)"

text \<open>\<open>_sample_topics\<close> (lines 416-422): one pass over all tokens.\<close>

definition sample_topics :: "config \<Rightarrow> real list \<Rightarrow> lda \<Rightarrow> error + lda" where
  "sample_topics c rands s =
     sample_pass c (heap s ! topic_word_new s) rands [0..<length (WS s)] s"

section \<open>Fitting\<close>

text \<open>
  The loop of \<open>_fit\<close> (lines 276-352) over \<open>range(n_iter)\<close>. \<open>rands it\<close> is the buffer
  of variates as the external generator has shuffled it for iteration \<open>it\<close>.
  \<open>it % self.refresh\<close> raises \<open>ZeroDivisionError\<close> for \<open>refresh = 0\<close>; the
  log-likelihood it guards is external and changes nothing.
\<close>

fun fit_iter ::
  "config \<Rightarrow> nat list list \<Rightarrow> (nat \<Rightarrow> real list) \<Rightarrow> nat list \<Rightarrow> lda \<Rightarrow> error + lda" where
  "fit_iter c X rands [] s = Inr s"
| "fit_iter c X rands (it # its) s =
     (if refresh c = 0 then Inl ZeroDivisionError
      else bind_err (sample_topics c (rands it) s) (\<lambda>s1.
           bind_err (if it mod 2 = 0 then adjust_step c X s1 else Inr s1)
             (fit_iter c X rands its)))"

text \<open>Line 365: \<open>lamda * topic_word_ + (1 - lamda) * topic_word_new\<close>, a new array.\<close>

definition blend :: "real \<Rightarrow> real list list \<Rightarrow> real list list \<Rightarrow> real list list" where
  "blend l A B = map2 (\<lambda>ra rb. map2 (\<lambda>x y. l * x + (1 - l) * y) ra rb) A B"

text \<open>
  The object after \<open>_fit\<close>: \<open>topic_word_\<close> and \<open>doc_topic_\<close> are references as well.
\<close>

record fitted = lda +
  topic_word :: nat
  doc_topic :: nat

text \<open>
  \<open>_fit\<close> (lines 264-372). After the loop \<open>components_\<close> is computed anew from the
  counts (a new array), \<open>doc_topic_\<close> is the smoothed normalisation of \<open>ndz_\<close>,
  \<open>topic_word_\<close> becomes the blend, the perplexity of \<open>X\<close> is computed for printing (and
  may raise), and the token stream is deleted.
\<close>

definition fit :: "config \<Rightarrow> nat list list \<Rightarrow> (nat \<Rightarrow> real list) \<Rightarrow> error + fitted" where
  "fit c X rands =
     bind_err (initialize c X) (\<lambda>s0.
     bind_err (fit_iter c X rands [0..<nat (n_iter c)] s0) (\<lambda>s.
     bind_err (smoothed_rows (eta c) (nzw s)) (\<lambda>comp.
     bind_err (normalize_rows (map (map (\<lambda>n. real_of_int n + alpha c)) (ndz s))) (\<lambda>dt.
     let tw = blend (lamda c) comp (heap s ! topic_word_new s);
         a = length (heap s)
     in bind_err (perplexity (n_topics c) dt tw X) (\<lambda>_.
        Inr \<lparr>nzw = nzw s, ndz = ndz s, nz = nz s, WS = [], DS = [], ZS = [],
             heap = heap s @ [comp, dt, tw], components = a,
             topic_word_new = topic_word_new s, topic_word = a + 2, doc_topic = a + 1\<rparr>)))))"

section \<open>Bookkeeping invariant\<close>

text \<open>
  The arrays have the shapes that \<open>_initialize\<close> gives them: \<open>nzw\<close> is topics by
  vocabulary, \<open>ndz\<close> documents by topics, \<open>nz\<close> has one entry per topic.
\<close>

definition shape :: "('a counts_scheme) \<Rightarrow> nat \<Rightarrow> nat \<Rightarrow> nat \<Rightarrow> bool" where
  "shape s K V D =
     (length (nzw s) = K \<and> list_all (\<lambda>r. length r = V) (nzw s) \<and>
      length (ndz s) = D \<and> list_all (\<lambda>r. length r = K) (ndz s) \<and> length (nz s) = K)"

text \<open>
  For every topic the row sum of \<open>nzw\<close>, the entry of \<open>nz\<close> and the column sum of
  \<open>ndz\<close> agree.
\<close>

definition balanced :: "('a counts_scheme) \<Rightarrow> bool" where
  "balanced s =
     (\<forall>z < length (nz s). sum_list (nzw s ! z) = nz s ! z \<and>
        nz s ! z = (\<Sum>row\<leftarrow>ndz s. row ! z))"

text \<open>
  The invariant of the count state for \<open>K\<close> topics, \<open>V\<close> words, \<open>D\<close> documents and
  \<open>N\<close> tokens: shapes, a well-formed token stream of length \<open>N\<close>, balance, and \<open>N\<close> as
  the sum of all entries of \<open>ndz\<close>.
\<close>

definition count_inv :: "('a counts_scheme) \<Rightarrow> nat \<Rightarrow> nat \<Rightarrow> nat \<Rightarrow> nat \<Rightarrow> bool" where
  "count_inv s K V D N =
     (shape s K V D \<and> tokens_ok s D K \<and> length (WS s) = N \<and> list_all (\<lambda>w. w < V) (WS s) \<and>
      balanced s \<and> (\<Sum>row\<leftarrow>ndz s. sum_list row) = int N)"

text \<open>
  The counters count tokens. \<open>occurrences P Q\<close> is the number of the token positions in
  \<open>P\<close> that satisfy \<open>Q\<close>. The counts are exact for the set \<open>P\<close> of positions when
  \<open>nzw[z][w]\<close> is the number of the positions in \<open>P\<close> that hold word \<open>w\<close> under
  topic \<open>z\<close>, \<open>ndz[d][z]\<close> the number of those of document \<open>d\<close> under topic \<open>z\<close>,
  and \<open>nz[z]\<close> the number of those under topic \<open>z\<close>. During initialisation \<open>P\<close> is
  the set of the positions visited so far; during a sampling step the position of the token
  leaves \<open>P\<close> and enters it again.
\<close>

definition occurrences :: "nat set \<Rightarrow> (nat \<Rightarrow> bool) \<Rightarrow> int" where
  "occurrences P Q = int (card {j \<in> P. Q j})"

definition exact :: "('a counts_scheme) \<Rightarrow> nat set \<Rightarrow> bool" where
  "exact s P =
     ((\<forall>z < length (nzw s). \<forall>w < length (nzw s ! z).
         nzw s ! z ! w = occurrences P (\<lambda>i. ZS s ! i = z \<and> WS s ! i = w)) \<and>
      (\<forall>d < length (ndz s). \<forall>z < length (ndz s ! d).
         ndz s ! d ! z = occurrences P (\<lambda>i. DS s ! i = d \<and> ZS s ! i = z)) \<and>
      (\<forall>z < length (nz s). nz s ! z = occurrences P (\<lambda>i. ZS s ! i = z)))"

text \<open>
  The states of the object during \<open>_fit\<close>: the state after \<open>_initialize\<close>, and from a
  state the one after a sampling pass (with any buffer of variates) and the one after a
  coherence adjustment.
\<close>

inductive reach :: "config \<Rightarrow> nat list list \<Rightarrow> lda \<Rightarrow> bool" for c X where
  reach_init: "initialize c X = Inr s \<Longrightarrow> reach c X s"
| reach_pass: "reach c X s \<Longrightarrow> sample_topics c rands s = Inr s' \<Longrightarrow> reach c X s'"
| reach_adjust: "reach c X s \<Longrightarrow> adjust_step c X s = Inr s' \<Longrightarrow> reach c X s'"

section \<open>Inference for new documents\<close>

text \<open>
  \<open>_transform_single\<close> (lines 225-238) works with whole arrays. \<open>cmps\<close> is
  \<open>self.components_\<close>, with one row per topic, \<open>a\<close> is \<open>self.alpha\<close> and \<open>doc\<close> the
  word ids of the document. \<open>PZS.sum(axis=0)\<close> is the vector of the column sums.
\<close>

definition col_sums :: "real list list \<Rightarrow> nat \<Rightarrow> real list" where
  "col_sums P K = map (\<lambda>k. \<Sum>row\<leftarrow>P. row ! k) [0..<K]"

text \<open>
  \<open>self.components_[:, doc].T\<close>: row \<open>i\<close> is the column of word \<open>doc[i]\<close>; a word id
  past the columns raises \<open>IndexError\<close>.
\<close>

definition take_columns :: "real list list \<Rightarrow> nat list \<Rightarrow> error + real list list" where
  "take_columns cmps doc =
     (if \<exists>w\<in>set doc. ncols cmps \<le> w then Inl IndexError
      else Inr (map (\<lambda>w. map (\<lambda>row. row ! w) cmps) doc))"

text \<open>
  Lines 227-229: the columns are multiplied element-wise by
  \<open>PZS.sum(axis=0) - PZS + self.alpha\<close> and every row is divided by its sum.
\<close>

definition pzs_step :: "real list list \<Rightarrow> real \<Rightarrow> nat \<Rightarrow> real list list \<Rightarrow> error + real list list" where
  "pzs_step base a K PZS =
     (let cs = col_sums PZS K in
      normalize_rows
        (map2 (\<lambda>b row. map2 (*) b (map2 (\<lambda>c p. c - p + a) cs row)) base PZS))"

text \<open>\<open>np.abs(PZS_new - PZS).sum()\<close>.\<close>

definition delta_naive :: "real list list \<Rightarrow> real list list \<Rightarrow> real" where
  "delta_naive A B = sum_list (map2 (\<lambda>ra rb. sum_list (map2 (\<lambda>x y. \<bar>x - y\<bar>) ra rb)) A B)"

text \<open>
  The loop over \<open>range(max_iter + 1)\<close> with its \<open>break\<close>; the last argument counts the
  iterations that were run.
\<close>

fun pzs_loop ::
  "real list list \<Rightarrow> real \<Rightarrow> real \<Rightarrow> nat list \<Rightarrow> nat \<Rightarrow> real list list \<Rightarrow> nat
     \<Rightarrow> error + real list list \<times> nat" where
  "pzs_loop cmps a tol doc 0 PZS it = Inr (PZS, it)"
| "pzs_loop cmps a tol doc (Suc n) PZS it =
     bind_err (take_columns cmps doc) (\<lambda>base.
     bind_err (pzs_step base a (length cmps) PZS) (\<lambda>PZS_new.
     if delta_naive PZS_new PZS < tol then Inr (PZS_new, Suc it)
     else pzs_loop cmps a tol doc n PZS_new (Suc it)))"

text \<open>
  \<open>PZS\<close> starts as zeros of shape \<open>(len(doc), n_topics)\<close>; the result is
  \<open>PZS.sum(axis=0) / PZS.sum()\<close>, again a float division.
\<close>

definition transform_single ::
  "real list list \<Rightarrow> real \<Rightarrow> nat list \<Rightarrow> int \<Rightarrow> real \<Rightarrow> error + real list" where
  "transform_single cmps a doc max_iter tol =
     bind_err (pzs_loop cmps a tol doc (nat (max_iter + 1))
                 (replicate (length doc) (replicate (length cmps) 0)) 0) (\<lambda>(PZS, it).
     div_row (col_sums PZS (length cmps)) (sum_list (map sum_list PZS)))"

text \<open>
  \<open>transform\<close> (lines 191-200). \<open>doc_topic\<close> starts as \<open>np.empty\<close>, an array of the
  right shape whose contents are whatever the memory held: the argument \<open>garbage\<close>.
  \<open>WS[DS == d]\<close> are the words of document \<open>d\<close>, and the loop runs over
  \<open>np.unique(DS)\<close>, the sorted documents that have a token.
\<close>

definition doc_words :: "nat list \<Rightarrow> nat list \<Rightarrow> nat \<Rightarrow> nat list" where
  "doc_words ws ds d = map fst (filter (\<lambda>(w, d'). d' = d) (zip ws ds))"

fun transform_docs ::
  "real list list \<Rightarrow> real \<Rightarrow> int \<Rightarrow> real \<Rightarrow> nat list \<Rightarrow> nat list \<Rightarrow> nat list \<Rightarrow> real list list
     \<Rightarrow> error + real list list" where
  "transform_docs cmps a max_iter tol ws ds [] out = Inr out"
| "transform_docs cmps a max_iter tol ws ds (d # rest) out =
     bind_err (transform_single cmps a (doc_words ws ds d) max_iter tol) (\<lambda>theta.
     if d < length out
     then transform_docs cmps a max_iter tol ws ds rest (out[d := theta])
     else Inl IndexError)"

definition transform ::
  "real list list \<Rightarrow> real \<Rightarrow> nat list list \<Rightarrow> int \<Rightarrow> real \<Rightarrow> real list list \<Rightarrow> error + real list list" where
  "transform cmps a X max_iter tol garbage =
     (let (ws, ds) = matrix_to_lists X in
      transform_docs cmps a max_iter tol ws ds (sort (remdups ds)) garbage)"

text \<open>
  The inference as the spec words it (4.5), entry by entry: the weight matrix starts at
  zero; an update sets the entry of position \<open>i\<close> and topic \<open>k\<close> to
  \<open>topic_word[k][word_i]\<close> times the mass of the other positions in topic \<open>k\<close> plus
  \<open>alpha\<close>; every position is normalised to sum to one; the change is the total absolute
  difference to the previous matrix; at most \<open>max_iter + 1\<close> updates are made and the
  iteration stops early when the change is below \<open>tol\<close>; the estimate is the vector of
  column sums divided by its total.
\<close>

definition others_mass :: "real list list \<Rightarrow> nat \<Rightarrow> nat \<Rightarrow> real" where
  "others_mass PZS i k = (\<Sum>j\<leftarrow>[0..<length PZS]. if j \<noteq> i then PZS ! j ! k else 0)"

definition spec_update :: "real list list \<Rightarrow> real \<Rightarrow> nat list \<Rightarrow> real list list \<Rightarrow> real list list" where
  "spec_update tw a doc PZS =
     map (\<lambda>i. map (\<lambda>k. tw ! k ! (doc ! i) * (others_mass PZS i k + a)) [0..<length tw])
       [0..<length doc]"

definition spec_change :: "real list list \<Rightarrow> real list list \<Rightarrow> real" where
  "spec_change A B = (\<Sum>i\<leftarrow>[0..<length A]. \<Sum>k\<leftarrow>[0..<length (A ! i)]. \<bar>A ! i ! k - B ! i ! k\<bar>)"

fun spec_iterate ::
  "real list list \<Rightarrow> real \<Rightarrow> real \<Rightarrow> nat list \<Rightarrow> nat \<Rightarrow> real list list \<Rightarrow> error + real list list" where
  "spec_iterate tw a tol doc 0 PZS = Inr PZS"
| "spec_iterate tw a tol doc (Suc n) PZS =
     bind_err (normalize_rows (spec_update tw a doc PZS)) (\<lambda>PZS_new.
     if spec_change PZS_new PZS < tol then Inr PZS_new
     else spec_iterate tw a tol doc n PZS_new)"

definition spec_infer ::
  "real list list \<Rightarrow> real \<Rightarrow> nat list \<Rightarrow> int \<Rightarrow> real \<Rightarrow> error + real list" where
  "spec_infer tw a doc max_iter tol =
     bind_err (spec_iterate tw a tol doc (nat (max_iter + 1))
                 (replicate (length doc) (replicate (length tw) 0))) (\<lambda>PZS.
     div_row (map (\<lambda>k. \<Sum>i\<leftarrow>[0..<length doc]. PZS ! i ! k) [0..<length tw])
       (\<Sum>k\<leftarrow>[0..<length tw]. \<Sum>i\<leftarrow>[0..<length doc]. PZS ! i ! k))"

text \<open>A matrix of \<open>n\<close> rows of length \<open>K\<close>.\<close>

definition mat :: "nat \<Rightarrow> nat \<Rightarrow> 'a list list \<Rightarrow> bool" where
  "mat n K P = (length P = n \<and> list_all (\<lambda>r. length r = K) P)"

text \<open>
  A row is a distribution over \<open>K\<close> topics; a matrix has no negative entry; all rows of a
  matrix sum to one.
\<close>

definition row_stochastic :: "nat \<Rightarrow> real list \<Rightarrow> bool" where
  "row_stochastic K r = (length r = K \<and> (\<forall>x\<in>set r. 0 \<le> x) \<and> sum_list r = 1)"

definition nonneg :: "real list list \<Rightarrow> bool" where
  "nonneg P = (\<forall>r\<in>set P. \<forall>x\<in>set r. 0 \<le> x)"

definition rows_one :: "real list list \<Rightarrow> bool" where
  "rows_one P = (\<forall>r\<in>set P. sum_list r = 1)"

section \<open>A worked example\<close>

text \<open>
  One document over twelve words with the counts 12, 11, ..., 1, one topic, one iteration,
  \<open>alpha = eta = 1\<close>, \<open>lamda = 1/2\<close>. The embedding of word 11 is the negative of the
  embedding of the other eleven words. The buffer of variates holds \<open>1/2\<close>; with one
  topic the draw does not depend on it. The other constants are the states and arrays that
  fitting this input goes through: the state after initialisation (and after the sampling
  pass), the estimate derived from the counts, the same array after the adjustment, the
  state after the adjustment, the final blend and the fitted object.
\<close>

definition demo_config :: config where
  "demo_config =
     \<lparr>n_topics = 1, n_iter = 1, alpha = 1, eta = 1, lamda = 1/2, refresh = 10,
      emb = (\<lambda>w. if w < 12 then Some ((if w = 11 then - 1 else 1) # replicate 99 0) else None)\<rparr>"

definition demo_X :: "nat list list" where
  "demo_X = [[12, 11, 10, 9, 8, 7, 6, 5, 4, 3, 2, 1]]"

definition demo_init :: "real list list" where
  "demo_init = [replicate 12 (1/12)]"

definition demo_s0 :: lda where
  "demo_s0 =
     \<lparr>nzw = [[12, 11, 10, 9, 8, 7, 6, 5, 4, 3, 2, 1]], ndz = [[78]], nz = [78],
      WS = fst (matrix_to_lists demo_X), DS = replicate 78 0, ZS = replicate 78 0,
      heap = [demo_init], components = 0, topic_word_new = 0\<rparr>"

definition demo_components :: "real list list" where
  "demo_components =
     [[13/90, 12/90, 11/90, 10/90, 9/90, 8/90, 7/90, 6/90, 5/90, 4/90, 3/90, 2/90]]"

definition demo_adjusted :: "real list list" where
  "demo_adjusted =
     [[13/90, 12/90, 11/90, 10/90, 9/90, 8/90, 7/90, 6/90, 5/90, 4/90, 3/90, 0]]"

definition demo_s1 :: lda where
  "demo_s1 = demo_s0\<lparr>heap := [demo_init, demo_adjusted], components := 1, topic_word_new := 1\<rparr>"

definition demo_rands :: "nat \<Rightarrow> real list" where
  "demo_rands = (\<lambda>it. [1/2])"

definition demo_blend :: "real list list" where
  "demo_blend =
     [[13/90, 12/90, 11/90, 10/90, 9/90, 8/90, 7/90, 6/90, 5/90, 4/90, 3/90, 1/90]]"

definition demo_fitted :: fitted where
  "demo_fitted =
     \<lparr>nzw = [[12, 11, 10, 9, 8, 7, 6, 5, 4, 3, 2, 1]], ndz = [[78]], nz = [78],
      WS = [], DS = [], ZS = [],
      heap = [demo_init, demo_adjusted, demo_components, [[1]], demo_blend],
      components = 2, topic_word_new = 1, topic_word = 4, doc_topic = 3\<rparr>"

section \<open>Construction\<close>

text \<open>
  C4: constructing the model raises the invalid-configuration error (a \<open>ValueError\<close>)
  if and only if \<open>alpha \<le> 0\<close> or \<open>eta \<le> 0\<close>; otherwise the constructor returns the
  model with the configuration it was given, so that no error of any kind is raised for
  positive \<open>alpha\<close> and \<open>eta\<close>. The check is part of the constructor itself, before any
  fitting.
\<close>

theorem LDA_init_error_iff:
  "(LDA_init c = Inl ValueError) = (alpha c \<le> 0 \<or> eta c \<le> 0) \<and>
   (LDA_init c = Inr c) = (0 < alpha c \<and> 0 < eta c) \<and>
   (\<forall>e. LDA_init c = Inl e \<longrightarrow> e = ValueError)"
  by (auto simp: LDA_init_def)

theorem LDA_init_error_iff_witness:
  "LDA_init \<lparr>n_topics = 2, n_iter = 10, alpha = 0, eta = 1, lamda = 1/2, refresh = 10,
      emb = Map.empty\<rparr> = Inl ValueError \<and>
   LDA_init \<lparr>n_topics = 2, n_iter = 10, alpha = 1/10, eta = 1/100, lamda = 1/2, refresh = 10,
      emb = Map.empty\<rparr> =
     Inr \<lparr>n_topics = 2, n_iter = 10, alpha = 1/10, eta = 1/100, lamda = 1/2, refresh = 10,
      emb = Map.empty\<rparr>"
  using LDA_init_error_iff [of "\<lparr>n_topics = 2, n_iter = 10, alpha = 0, eta = 1, lamda = 1/2,
      refresh = 10, emb = Map.empty\<rparr>"]
    LDA_init_error_iff [of "\<lparr>n_topics = 2, n_iter = 10, alpha = 1/10, eta = 1/100,
      lamda = 1/2, refresh = 10, emb = Map.empty\<rparr>"]
  by simp

section \<open>Initialisation\<close>

lemma length_row_tokens:
  "length (concat (map (\<lambda>w. replicate (f w) w) ws)) = sum_list (map f ws)"
  by (induction ws) auto

lemma length_WS: "length (fst (matrix_to_lists X)) = total X"
  unfolding matrix_to_lists_def total_def
  by (induction X) (simp_all add: length_row_tokens map_nth)

lemma length_DS: "length (snd (matrix_to_lists X)) = total X"
proof -
  have "length (concat (map (\<lambda>d. replicate (sum_list (X ! d)) d) [0..<length X]))
        = sum_list (map (\<lambda>d. sum_list (X ! d)) [0..<length X])"
    by (rule length_row_tokens)
  also have "\<dots> = sum_list (map sum_list (map ((!) X) [0..<length X]))"
    by (simp add: comp_def)
  also have "\<dots> = total X" by (simp add: map_nth total_def)
  finally show ?thesis by (simp add: matrix_to_lists_def)
qed

lemma smoothed_rows_empty: "smoothed_rows e [] = Inr []"
  by (simp add: smoothed_rows_def normalize_rows_def)

text \<open>
  C5, as the code has it: \<open>n_topics\<close> is checked nowhere. A negative \<open>n_topics\<close> makes
  the allocation of the count arrays raise \<open>ValueError\<close>, for every matrix. For
  \<open>n_topics = 0\<close> the initialisation fails only if the matrix holds a token, and then with
  the \<open>ZeroDivisionError\<close> of \<open>i % n_topics\<close>; for a matrix without tokens it succeeds.
\<close>

theorem initialize_nonpositive_topics:
  "(n_topics c < 0 \<longrightarrow> initialize c X = Inl ValueError) \<and>
   (n_topics c = 0 \<and> 0 < total X \<longrightarrow> initialize c X = Inl ZeroDivisionError) \<and>
   (n_topics c = 0 \<and> total X = 0 \<longrightarrow> (\<exists>s. initialize c X = Inr s))"
proof (intro conjI impI)
  assume "n_topics c < 0"
  then show "initialize c X = Inl ValueError" by (simp add: initialize_def Let_def)
next
  assume a: "n_topics c = 0 \<and> 0 < total X"
  obtain ws ds where m: "matrix_to_lists X = (ws, ds)" by (cases "matrix_to_lists X")
  have lw: "length ws = total X" using length_WS [of X] m by simp
  have ld: "length ds = total X" using length_DS [of X] m by simp
  have u: "[0..<total X] = 0 # [1..<total X]" using a by (simp add: upt_conv_Cons)
  show "initialize c X = Inl ZeroDivisionError"
    using a lw ld by (simp add: initialize_def Let_def m smoothed_rows_empty bind_err_def u)
next
  assume a: "n_topics c = 0 \<and> total X = 0"
  obtain ws ds where m: "matrix_to_lists X = (ws, ds)" by (cases "matrix_to_lists X")
  have lw: "length ws = total X" using length_WS [of X] m by simp
  show "\<exists>s. initialize c X = Inr s"
    using a lw by (simp add: initialize_def Let_def m smoothed_rows_empty bind_err_def)
qed

theorem initialize_nonpositive_topics_witness:
  "initialize \<lparr>n_topics = - 1, n_iter = 10, alpha = 1, eta = 1, lamda = 1/2, refresh = 10,
      emb = Map.empty\<rparr> [[2, 1]] = Inl ValueError \<and>
   initialize \<lparr>n_topics = 0, n_iter = 10, alpha = 1, eta = 1, lamda = 1/2, refresh = 10,
      emb = Map.empty\<rparr> [[2, 1]] = Inl ZeroDivisionError \<and>
   (\<exists>s. initialize \<lparr>n_topics = 0, n_iter = 10, alpha = 1, eta = 1, lamda = 1/2,
      refresh = 10, emb = Map.empty\<rparr> [[0, 0], [0, 0]] = Inr s)"
  using initialize_nonpositive_topics [of "\<lparr>n_topics = - 1, n_iter = 10, alpha = 1, eta = 1,
      lamda = 1/2, refresh = 10, emb = Map.empty\<rparr>" "[[2, 1]]"]
    initialize_nonpositive_topics [of "\<lparr>n_topics = 0, n_iter = 10, alpha = 1, eta = 1,
      lamda = 1/2, refresh = 10, emb = Map.empty\<rparr>" "[[2, 1]]"]
    initialize_nonpositive_topics [of "\<lparr>n_topics = 0, n_iter = 10, alpha = 1, eta = 1,
      lamda = 1/2, refresh = 10, emb = Map.empty\<rparr>" "[[0, 0], [0, 0]]"]
  by (simp add: total_def)

text \<open>
  The claim as stated fails: with \<open>n_topics = 0\<close> and a matrix of zeros the initialisation
  returns a state, and with \<open>n_topics = 0\<close> and one token the error is a
  \<open>ZeroDivisionError\<close>, not the configuration error.
\<close>

theorem initialize_zero_topics_counterexample:
  "initialize \<lparr>n_topics = 0, n_iter = 10, alpha = 1, eta = 1, lamda = 1/2, refresh = 10,
      emb = Map.empty\<rparr> [[0, 0]] =
     Inr \<lparr>nzw = [], ndz = [[]], nz = [], WS = [], DS = [], ZS = [], heap = [[]],
       components = 0, topic_word_new = 0\<rparr> \<and>
   initialize \<lparr>n_topics = 0, n_iter = 10, alpha = 1, eta = 1, lamda = 1/2, refresh = 10,
      emb = Map.empty\<rparr> [[0, 1]] = Inl ZeroDivisionError"
  by (simp add: initialize_def Let_def matrix_to_lists_def total_def ncols_def
      smoothed_rows_def normalize_rows_def bind_err_def)

section \<open>Perplexity of a uniform model, in exact arithmetic\<close>

lemma bind_err_Inr [simp]: "bind_err (Inr v) f = f v"
  by (simp add: bind_err_def)

lemma bind_err_Inl [simp]: "bind_err (Inl e) f = Inl e"
  by (simp add: bind_err_def)

lemma prob_word_uniform:
  assumes "d < length dt" "\<forall>k\<in>set ks. k < length (dt ! d) \<and> k < length tw"
    and "\<forall>k\<in>set ks. i < length (tw ! k) \<and> tw ! k ! i = u"
  shows "prob_word dt tw d i ks acc = Inr (acc + sum_list (map ((!) (dt ! d)) ks) * u)"
  using assms by (induction ks arbitrary: acc) (simp_all add: get2_def algebra_simps)

lemma prob_doc_uniform:
  assumes "\<forall>i\<in>set is. X ! d ! i \<noteq> 0 \<longrightarrow> prob_word dt tw d i [0..<nat K] 0 = Inr p" "0 < p"
  shows "prob_doc K dt tw X d is acc = Inr (acc + real (sum_list (map ((!) (X ! d)) is)) * ln p)"
  using assms by (induction "is" arbitrary: acc) (simp_all add: py_log_def algebra_simps)

lemma perplexity_docs_uniform:
  assumes "\<forall>d\<in>set ds. prob_doc K dt tw X d [0..<ncols X] 0 = Inr (real (sum_list (X ! d)) * l)"
  shows "perplexity_docs K dt tw X ds acc = Inr (acc + real (sum_list (map (\<lambda>d. sum_list (X ! d)) ds)) * l)"
  using assms by (induction ds arbitrary: acc) (simp_all add: algebra_simps)

lemma rect_nth: "rect X \<Longrightarrow> d < length X \<Longrightarrow> length (X ! d) = ncols X"
  by (simp add: rect_def list_all_length)

text \<open>
  In exact arithmetic the perplexity of a uniform model is the vocabulary size: for a count
  matrix with at least one token, if every entry of \<open>topic_word\<close> is \<open>1/V\<close> and every
  row of \<open>doc_topic\<close> sums to one, the real number that the computation approximates is
  \<open>V\<close>. Whether the doubles of the code hit \<open>V\<close> to the last digit depends on the
  rounding of their sums, logarithm and exponential, which is outside this development.
\<close>

lemma perplexity_uniform_real:
  assumes X: "rect X" "0 < total X"
    and tw: "length tw = K" "\<forall>r\<in>set tw. r = replicate (ncols X) (1 / real (ncols X))"
    and dt: "length dt = length X" "\<forall>r\<in>set dt. length r = K \<and> sum_list r = 1"
  shows "perplexity (int K) dt tw X = Inr (real (ncols X))"
proof -
  let ?V = "ncols X"
  have Vpos: "0 < ?V"
  proof (rule ccontr)
    assume "\<not> 0 < ?V"
    then have "\<forall>r\<in>set X. r = []" using X(1) by (auto simp: rect_def list_all_iff)
    then have "map sum_list X = map (\<lambda>_. 0) X" by (intro map_cong) auto
    then have "total X = 0" by (simp add: total_def)
    then show False using X(2) by simp
  qed
  have pw: "prob_word dt tw d i [0..<nat (int K)] 0 = Inr (1 / real ?V)"
    if "d < length X" "i < ?V" for d i
  proof -
    have r: "length (dt ! d) = K" "sum_list (dt ! d) = 1"
      using dt that by (auto simp: all_set_conv_all_nth)
    have "prob_word dt tw d i [0..<K] 0
          = Inr (0 + sum_list (map ((!) (dt ! d)) [0..<K]) * (1 / real ?V))"
      using that dt tw r by (intro prob_word_uniform) (auto simp: all_set_conv_all_nth)
    moreover have "map ((!) (dt ! d)) [0..<K] = dt ! d" using r(1) by (metis map_nth)
    ultimately show ?thesis using r by simp
  qed
  have pd: "prob_doc (int K) dt tw X d [0..<?V] 0
            = Inr (real (sum_list (X ! d)) * ln (1 / real ?V))" if "d < length X" for d
  proof -
    have "prob_doc (int K) dt tw X d [0..<?V] 0
          = Inr (0 + real (sum_list (map ((!) (X ! d)) [0..<?V])) * ln (1 / real ?V))"
      using pw that Vpos by (intro prob_doc_uniform) auto
    moreover have "map ((!) (X ! d)) [0..<?V] = X ! d"
      using rect_nth [OF X(1) that] by (metis map_nth)
    ultimately show ?thesis by simp
  qed
  have "perplexity_docs (int K) dt tw X [0..<length X] 0
        = Inr (0 + real (sum_list (map (\<lambda>d. sum_list (X ! d)) [0..<length X])) * ln (1 / real ?V))"
    using pd by (intro perplexity_docs_uniform) auto
  moreover have "map (\<lambda>d. sum_list (X ! d)) [0..<length X] = map sum_list X"
    by (rule nth_equalityI) simp_all
  ultimately have s: "perplexity_docs (int K) dt tw X [0..<length X] 0
        = Inr (real (total X) * ln (1 / real ?V))"
    by (simp add: total_def)
  have "exp (- (real (total X) * ln (1 / real ?V)) / real (total X)) = real ?V"
    using X(2) Vpos by (simp add: ln_div)
  then show ?thesis using X(2) by (simp add: perplexity_def s)
qed


lemma perplexity_uniform_real_example:
  "perplexity 2 [[1/4, 3/4], [1, 0]] [[1/3, 1/3, 1/3], [1/3, 1/3, 1/3]] [[2, 0, 1], [0, 1, 0]] = Inr 3"
  using perplexity_uniform_real [of "[[2, 0, 1], [0, 1, 0]]" "[[1/3, 1/3, 1/3], [1/3, 1/3, 1/3]]" 2
      "[[1/4, 3/4], [1, 0]]"]
  by (simp add: rect_def ncols_def total_def)

section \<open>Coherence scores are sums over the 66 pairs\<close>



lemma upt_shift: "[n + a..<n + b] = map ((+) n) [a..<b]"
  by (induction b) (auto simp: le_Suc_eq)

lemma pairs_shift: "pairs i = map (\<lambda>(a, b). (i * 12 + a, i * 12 + b)) (pairs 0)"
proof -
  have "[i * 12 + 1..<i * 12 + 12] = map ((+) (i * 12)) [1..<12]" by (rule upt_shift)
  moreover have "[i * 12..<i * 12 + b] = map ((+) (i * 12)) [0..<b]" for b
    using upt_shift [of "i * 12" 0 b] by simp
  ultimately show ?thesis
    by (simp add: pairs_def map_concat comp_def)
qed

lemma set_pairs_0: "set (pairs 0) = {(a, b). a < b \<and> b < 12}"
proof -
  have "(a, b) \<in> set (pairs 0) \<longleftrightarrow> a < b \<and> b < 12" for a b
  proof
    assume "(a, b) \<in> set (pairs 0)"
    then show "a < b \<and> b < 12" by (auto simp: pairs_def)
  next
    assume h: "a < b \<and> b < 12"
    then have "b \<in> {Suc 0..<12}" "(a, b) \<in> (\<lambda>l. (l, b)) ` {0..<b}" by auto
    then show "(a, b) \<in> set (pairs 0)" unfolding pairs_def by (simp, blast)
  qed
  then show ?thesis by auto
qed

lemma length_pairs_0: "length (pairs 0) = 66"
  by code_simp

lemma distinct_pairs_0: "distinct (pairs 0)"
  by code_simp


lemma index_nth: "x \<in> set xs \<Longrightarrow> xs ! index xs x = x"
  by (induction xs) auto

lemma index_less: "x \<in> set xs \<Longrightarrow> index xs x < length xs"
  by (induction xs) auto

lemma index_of_nth: "distinct xs \<Longrightarrow> k < length xs \<Longrightarrow> index xs (xs ! k) = k"
proof (induction xs arbitrary: k)
  case Nil
  then show ?case by simp
next
  case (Cons y ys)
  then show ?case by (cases k) auto
qed

lemma incr3_apply:
  "incr3 count a d z a' d' z' = (if a' = a \<and> d' = d \<and> z' = z then count a d z + 1 else count a' d' z')"
  by (simp add: incr3_def)

lemma count_tokens_result:
  "count_tokens word_id D s is count = Inr cnt \<Longrightarrow>
     cnt a d z = count a d z + length (filter (hit word_id s a d z) is)"
proof (induction "is" arbitrary: count)
  case Nil
  then show ?case by simp
next
  case (Cons i "is")
  show ?case
  proof (cases "WS s ! i \<in> set (word_id ! (ZS s ! i))")
    case True
    with Cons.prems have
      "count_tokens word_id D s is
         (incr3 count (index (word_id ! (ZS s ! i)) (WS s ! i) + 12 * (ZS s ! i)) (DS s ! i) (ZS s ! i))
       = Inr cnt"
      by (simp add: Let_def split: if_splits)
    from Cons.IH [OF this] True show ?thesis
      by (auto simp: incr3_apply hit_def)
  next
    case False
    with Cons.prems have "count_tokens word_id D s is count = Inr cnt"
      by (simp add: Let_def split: if_splits)
    from Cons.IH [OF this] False show ?thesis by (auto simp: hit_def)
  qed
qed

lemma count_tokens_succeeds:
  assumes "\<forall>i\<in>set is. i < length (WS s) \<and> i < length (DS s) \<and> i < length (ZS s) \<and>
             ZS s ! i < length word_id \<and> DS s ! i < D"
  shows "\<exists>cnt. count_tokens word_id D s is count = Inr cnt"
  using assms by (induction "is" arbitrary: count) (simp_all add: Let_def)

lemma count_nonzero_iff:
  assumes c: "count_tokens word_id D s [0..<length (WS s)] (\<lambda>_ _ _. 0) = Inr cnt"
    and r: "length (word_id ! z) = 12" "distinct (word_id ! z)" and a: "a < 12"
  shows "cnt (z * 12 + a) d z \<noteq> 0 \<longleftrightarrow> occurs s (word_id ! z ! a) d z"
proof -
  have "cnt (z * 12 + a) d z = length (filter (hit word_id s (z * 12 + a) d z) [0..<length (WS s)])"
    using count_tokens_result [OF c] by simp
  then have "cnt (z * 12 + a) d z \<noteq> 0 \<longleftrightarrow> (\<exists>i < length (WS s). hit word_id s (z * 12 + a) d z i)"
    by (auto simp: filter_empty_conv)
  moreover have "hit word_id s (z * 12 + a) d z i \<longleftrightarrow>
      WS s ! i = word_id ! z ! a \<and> DS s ! i = d \<and> ZS s ! i = z" for i
    using r a index_nth [of "WS s ! i" "word_id ! z"] index_of_nth [of "word_id ! z" a]
    by (auto simp: hit_def)
  ultimately show ?thesis by (simp add: occurs_def)
qed

lemma frequencies:
  assumes c: "count_tokens word_id D s [0..<length (WS s)] (\<lambda>_ _ _. 0) = Inr cnt"
    and r: "length (word_id ! z) = 12" "distinct (word_id ! z)" and a: "a < 12" "b < 12"
  shows "con_frequency cnt D z (z * 12 + a) (z * 12 + b)
           = joint_count s D z (word_id ! z ! a) (word_id ! z ! b)"
    and "self_frequency cnt D z (z * 12 + a) = marginal_count s D z (word_id ! z ! a)"
proof -
  have "(\<lambda>d. cnt (z * 12 + b) d z \<noteq> 0 \<and> cnt (z * 12 + a) d z \<noteq> 0)
        = (\<lambda>d. occurs s (word_id ! z ! a) d z \<and> occurs s (word_id ! z ! b) d z)"
    using count_nonzero_iff [OF c r a(1)] count_nonzero_iff [OF c r a(2)] by auto
  then show "con_frequency cnt D z (z * 12 + a) (z * 12 + b)
           = joint_count s D z (word_id ! z ! a) (word_id ! z ! b)"
    by (simp add: con_frequency_def joint_count_def)
  have "(\<lambda>d. cnt (z * 12 + a) d z \<noteq> 0) = (\<lambda>d. occurs s (word_id ! z ! a) d z)"
    using count_nonzero_iff [OF c r a(1)] by auto
  then show "self_frequency cnt D z (z * 12 + a) = marginal_count s D z (word_id ! z ! a)"
    by (simp add: self_frequency_def marginal_count_def)
qed

lemma ck_pairs_result:
  "ck_pairs count D i ps acc =
     (if \<exists>(l, m)\<in>set ps. self_frequency count D i l = 0 then Inl ZeroDivisionError
      else Inr (acc + (\<Sum>(l, m)\<leftarrow>ps. ln ((real (con_frequency count D i l m) + 1)
                                          / real (self_frequency count D i l)))))"
proof (induction ps arbitrary: acc)
  case Nil
  then show ?case by simp
next
  case (Cons p ps)
  obtain l m where p: "p = (l, m)" by (cases p)
  show ?case
  proof (cases "self_frequency count D i l = 0")
    case True
    then show ?thesis by (simp add: p ck_pair_def)
  next
    case False
    then have "ck_pair count D i l m
        = Inr (ln ((real (con_frequency count D i l m) + 1) / real (self_frequency count D i l)))"
      by (simp add: ck_pair_def py_log_def divide_le_0_iff add_nonneg_eq_0_iff)
    with False Cons.IH show ?thesis by (simp add: p algebra_simps)
  qed
qed


lemma sequence_err_map:
  assumes "\<forall>x\<in>set xs. f x = (if bad x then Inl e else Inr (g x))"
  shows "sequence_err (map f xs) = (if \<exists>x\<in>set xs. bad x then Inl e else Inr (map g xs))"
  using assms by (induction xs) auto

lemma ck_topic_relative:
  assumes c: "count_tokens word_id D s [0..<length (WS s)] (\<lambda>_ _ _. 0) = Inr cnt"
    and r: "length (word_id ! z) = 12" "distinct (word_id ! z)"
  shows "ck_topic cnt D z =
     (if \<exists>(a, b)\<in>set (pairs 0). marginal_count s D z (word_id ! z ! a) = 0
      then Inl ZeroDivisionError
      else Inr (\<Sum>(a, b)\<leftarrow>pairs 0.
             ln ((real (joint_count s D z (word_id ! z ! a) (word_id ! z ! b)) + 1)
                 / real (marginal_count s D z (word_id ! z ! a)))))"
proof -
  let ?f = "\<lambda>l m. ln ((real (con_frequency cnt D z l m) + 1) / real (self_frequency cnt D z l))"
  let ?g = "\<lambda>a b. ln ((real (joint_count s D z (word_id ! z ! a) (word_id ! z ! b)) + 1)
                 / real (marginal_count s D z (word_id ! z ! a)))"
  have fr: "con_frequency cnt D z (z * 12 + a) (z * 12 + b)
             = joint_count s D z (word_id ! z ! a) (word_id ! z ! b) \<and>
            self_frequency cnt D z (z * 12 + a) = marginal_count s D z (word_id ! z ! a)"
    if "(a, b) \<in> set (pairs 0)" for a b
    using that frequencies [OF c r, of a b] by (simp add: set_pairs_0)
  have fr': "\<forall>q\<in>set (pairs 0).
      con_frequency cnt D z (z * 12 + fst q) (z * 12 + snd q)
        = joint_count s D z (word_id ! z ! fst q) (word_id ! z ! snd q) \<and>
      self_frequency cnt D z (z * 12 + fst q) = marginal_count s D z (word_id ! z ! fst q)"
    using fr by auto
  have bad: "(\<exists>p\<in>set (pairs z). self_frequency cnt D z (fst p) = 0)
             \<longleftrightarrow> (\<exists>q\<in>set (pairs 0). marginal_count s D z (word_id ! z ! fst q) = 0)"
    using fr' by (subst pairs_shift) (simp add: case_prod_unfold)
  have "(\<Sum>p\<leftarrow>pairs z. ?f (fst p) (snd p))
        = (\<Sum>q\<leftarrow>pairs 0. ?f (z * 12 + fst q) (z * 12 + snd q))"
    by (subst pairs_shift) (simp add: comp_def case_prod_unfold)
  also have "\<dots> = (\<Sum>q\<leftarrow>pairs 0. ?g (fst q) (snd q))"
    by (rule arg_cong [where f = sum_list], rule map_cong) (use fr' in auto)
  finally have sm: "(\<Sum>p\<leftarrow>pairs z. ?f (fst p) (snd p)) = (\<Sum>q\<leftarrow>pairs 0. ?g (fst q) (snd q))" .
  show ?thesis
    by (simp add: ck_topic_def ck_pairs_result case_prod_unfold bad sm)
qed

lemma ck_stage_char:
  assumes t: "tokens_ok s D K"
    and w: "length word_id = K" "\<forall>r\<in>set word_id. length r = 12 \<and> distinct r"
  shows "ck_stage word_id D K s =
     (if \<exists>z<K. \<exists>(a, b)\<in>set (pairs 0). marginal_count s D z (word_id ! z ! a) = 0
      then Inl ZeroDivisionError
      else Inr (map (\<lambda>z. \<Sum>(a, b)\<leftarrow>pairs 0.
             ln ((real (joint_count s D z (word_id ! z ! a) (word_id ! z ! b)) + 1)
                 / real (marginal_count s D z (word_id ! z ! a)))) [0..<K])) \<and>
     length (pairs 0) = 66 \<and> distinct (pairs 0) \<and> set (pairs 0) = {(a, b). a < b \<and> b < 12}"
proof -
  have "\<exists>cnt. count_tokens word_id D s [0..<length (WS s)] (\<lambda>_ _ _. 0) = Inr cnt"
    using t w by (intro count_tokens_succeeds) (auto simp: tokens_ok_def list_all_length)
  then obtain cnt where
    c: "count_tokens word_id D s [0..<length (WS s)] (\<lambda>_ _ _. 0) = Inr cnt" ..
  have "\<forall>z\<in>set [0..<K]. ck_topic cnt D z =
     (if \<exists>(a, b)\<in>set (pairs 0). marginal_count s D z (word_id ! z ! a) = 0
      then Inl ZeroDivisionError
      else Inr (\<Sum>(a, b)\<leftarrow>pairs 0.
             ln ((real (joint_count s D z (word_id ! z ! a) (word_id ! z ! b)) + 1)
                 / real (marginal_count s D z (word_id ! z ! a)))))"
  proof (intro ballI)
    fix z assume "z \<in> set [0..<K]"
    then have "length (word_id ! z) = 12" "distinct (word_id ! z)" using w by auto
    then show "ck_topic cnt D z =
     (if \<exists>(a, b)\<in>set (pairs 0). marginal_count s D z (word_id ! z ! a) = 0
      then Inl ZeroDivisionError
      else Inr (\<Sum>(a, b)\<leftarrow>pairs 0.
             ln ((real (joint_count s D z (word_id ! z ! a) (word_id ! z ! b)) + 1)
                 / real (marginal_count s D z (word_id ! z ! a)))))"
      by (rule ck_topic_relative [OF c])
  qed
  from sequence_err_map [OF this] have
    "ck_all cnt D K =
     (if \<exists>z<K. \<exists>(a, b)\<in>set (pairs 0). marginal_count s D z (word_id ! z ! a) = 0
      then Inl ZeroDivisionError
      else Inr (map (\<lambda>z. \<Sum>(a, b)\<leftarrow>pairs 0.
             ln ((real (joint_count s D z (word_id ! z ! a) (word_id ! z ! b)) + 1)
                 / real (marginal_count s D z (word_id ! z ! a)))) [0..<K]))"
    by (simp add: ck_all_def)
  then show ?thesis
    by (simp add: ck_stage_def c length_pairs_0 distinct_pairs_0 set_pairs_0)
qed

text \<open>
  C6: for a well-formed token stream and 12 distinct top words per topic, the score of each
  topic is the sum of \<open>log((joint_count + 1) / marginal_count)\<close> over the 66 pairs
  \<open>a < b\<close> of top-word positions, where the joint count is the number of documents in which
  both words occur assigned to the topic and the marginal count the number of documents in
  which the first word of the pair does; the computation fails, and then with
  \<open>ZeroDivisionError\<close>, exactly when the marginal count of some pair of some topic is zero.
\<close>

theorem ck_stage_result:
  assumes t: "tokens_ok s D K"
    and w: "length word_id = K" "\<forall>r\<in>set word_id. length r = 12 \<and> distinct r"
  shows "ck_stage word_id D K s =
     (if \<exists>z<K. \<exists>(a, b)\<in>set (pairs 0). marginal_count s D z (word_id ! z ! a) = 0
      then Inl ZeroDivisionError
      else Inr (map (\<lambda>z. \<Sum>(a, b)\<leftarrow>pairs 0.
             ln ((real (joint_count s D z (word_id ! z ! a) (word_id ! z ! b)) + 1)
                 / real (marginal_count s D z (word_id ! z ! a)))) [0..<K])) \<and>
     length (pairs 0) = 66 \<and> distinct (pairs 0) \<and> set (pairs 0) = {(a, b). a < b \<and> b < 12}"
  using assms by (rule ck_stage_char)

theorem ck_stage_result_witness:
  "tokens_ok \<lparr>nzw = [], ndz = [], nz = [], WS = [0, 1, 2, 3, 4, 5, 6, 7, 8, 9, 10, 11, 0],
       DS = [0, 0, 0, 0, 0, 0, 0, 0, 0, 0, 0, 0, 1], ZS = [0, 0, 0, 0, 0, 0, 0, 0, 0, 0, 0, 0, 0]\<rparr> 2 1 \<and>
   ck_stage [[0, 1, 2, 3, 4, 5, 6, 7, 8, 9, 10, 11]] 2 1
     \<lparr>nzw = [], ndz = [], nz = [], WS = [0, 1, 2, 3, 4, 5, 6, 7, 8, 9, 10, 11, 0],
       DS = [0, 0, 0, 0, 0, 0, 0, 0, 0, 0, 0, 0, 1], ZS = [0, 0, 0, 0, 0, 0, 0, 0, 0, 0, 0, 0, 0]\<rparr> \<noteq> Inl IndexError"
proof -
  let ?s = "\<lparr>nzw = [], ndz = [], nz = [], WS = [0, 1, 2, 3, 4, 5, 6, 7, 8, 9, 10, 11, 0::nat],
       DS = [0, 0, 0, 0, 0, 0, 0, 0, 0, 0, 0, 0, 1::nat],
       ZS = [0, 0, 0, 0, 0, 0, 0, 0, 0, 0, 0, 0, 0::nat]\<rparr>"
  have t: "tokens_ok ?s 2 1" by (simp add: tokens_ok_def)
  have w: "length [[0, 1, 2, 3, 4, 5, 6, 7, 8, 9, 10, 11::nat]] = 1"
    "\<forall>r\<in>set [[0, 1, 2, 3, 4, 5, 6, 7, 8, 9, 10, 11::nat]]. length r = 12 \<and> distinct r"
    by simp_all
  from ck_stage_result [OF t w] have
    "ck_stage [[0, 1, 2, 3, 4, 5, 6, 7, 8, 9, 10, 11]] 2 1 ?s \<noteq> Inl IndexError"
    by (simp split: if_splits)
  with t show ?thesis by simp
qed

section \<open>The counts stay balanced\<close>


lemma sum_list_upd_int:
  "i < length xs \<Longrightarrow> sum_list (xs[i := y]) = sum_list xs - xs ! i + (y::int)"
proof (induction xs arbitrary: i)
  case Nil
  then show ?case by simp
next
  case (Cons x xs)
  then show ?case by (cases i) auto
qed

lemma sum_list_bump: "i < length xs \<Longrightarrow> sum_list (xs[i := xs ! i + v]) = sum_list xs + (v::int)"
  by (simp add: sum_list_upd_int)

lemma sum_list_map_update:
  "i < length xs \<Longrightarrow> sum_list (map f (xs[i := y])) = sum_list (map f xs) - f (xs ! i) + (f y :: int)"
  by (simp add: map_update sum_list_upd_int)

lemma add_token_eq:
  assumes "shape s K V D" "d < D" "w < V" "z < K"
  shows "add_token d w z v s =
     Inr (s\<lparr>nzw := (nzw s)[z := (nzw s ! z)[w := nzw s ! z ! w + v]],
            ndz := (ndz s)[d := (ndz s ! d)[z := ndz s ! d ! z + v]],
            nz := (nz s)[z := nz s ! z + v]\<rparr>)"
  using assms by (simp add: add_token_def bump1_def bump2_def shape_def list_all_length)

lemma add_token_shape:
  assumes "shape s K V D" "d < D" "w < V" "z < K" "add_token d w z v s = Inr s'"
  shows "shape s' K V D"
  using assms(5) assms(1-4) unfolding add_token_eq [OF assms(1-4)]
  by (auto simp: shape_def list_all_length nth_list_update)

lemma add_token_balanced:
  assumes "shape s K V D" "d < D" "w < V" "z < K" "add_token d w z v s = Inr s'" "balanced s"
  shows "balanced s'"
proof -
  have s': "s' = s\<lparr>nzw := (nzw s)[z := (nzw s ! z)[w := nzw s ! z ! w + v]],
            ndz := (ndz s)[d := (ndz s ! d)[z := ndz s ! d ! z + v]],
            nz := (nz s)[z := nz s ! z + v]\<rparr>"
    using assms(5) unfolding add_token_eq [OF assms(1-4)] by simp
  have l: "length (nzw s) = K" "length (nz s) = K" "length (ndz s) = D" "length (nzw s ! z) = V"
    "length (ndz s ! d) = K"
    using assms(1-4) by (auto simp: shape_def list_all_length)
  have col: "(\<Sum>row\<leftarrow>(ndz s)[d := (ndz s ! d)[z := ndz s ! d ! z + v]]. row ! z')
             = (\<Sum>row\<leftarrow>ndz s. row ! z') + (if z' = z then v else 0)" for z'
    using l assms(2,4) by (simp add: sum_list_map_update [where f = "\<lambda>row. row ! z'"] nth_list_update)
  show ?thesis
    unfolding balanced_def s'
  proof (intro allI impI)
    fix z' assume "z' < length (nz (s\<lparr>nzw := (nzw s)[z := (nzw s ! z)[w := nzw s ! z ! w + v]],
            ndz := (ndz s)[d := (ndz s ! d)[z := ndz s ! d ! z + v]],
            nz := (nz s)[z := nz s ! z + v]\<rparr>))"
    then have z': "z' < K" using l by simp
    then have b: "sum_list (nzw s ! z') = nz s ! z'" "nz s ! z' = (\<Sum>row\<leftarrow>ndz s. row ! z')"
      using assms(6) l by (auto simp: balanced_def)
    show "sum_list (nzw (s\<lparr>nzw := (nzw s)[z := (nzw s ! z)[w := nzw s ! z ! w + v]],
            ndz := (ndz s)[d := (ndz s ! d)[z := ndz s ! d ! z + v]],
            nz := (nz s)[z := nz s ! z + v]\<rparr>) ! z')
          = nz (s\<lparr>nzw := (nzw s)[z := (nzw s ! z)[w := nzw s ! z ! w + v]],
            ndz := (ndz s)[d := (ndz s ! d)[z := ndz s ! d ! z + v]],
            nz := (nz s)[z := nz s ! z + v]\<rparr>) ! z' \<and>
          nz (s\<lparr>nzw := (nzw s)[z := (nzw s ! z)[w := nzw s ! z ! w + v]],
            ndz := (ndz s)[d := (ndz s ! d)[z := ndz s ! d ! z + v]],
            nz := (nz s)[z := nz s ! z + v]\<rparr>) ! z'
          = (\<Sum>row\<leftarrow>ndz (s\<lparr>nzw := (nzw s)[z := (nzw s ! z)[w := nzw s ! z ! w + v]],
            ndz := (ndz s)[d := (ndz s ! d)[z := ndz s ! d ! z + v]],
            nz := (nz s)[z := nz s ! z + v]\<rparr>). row ! z')"
      using z' l b assms(3,4) by (auto simp: col nth_list_update sum_list_bump)
  qed
qed

lemma add_token_total:
  assumes "shape s K V D" "d < D" "w < V" "z < K" "add_token d w z v s = Inr s'"
  shows "(\<Sum>row\<leftarrow>ndz s'. sum_list row) = (\<Sum>row\<leftarrow>ndz s. sum_list row) + v"
proof -
  have l: "length (ndz s) = D" "length (ndz s ! d) = K"
    using assms(1-4) by (auto simp: shape_def list_all_length)
  show ?thesis
    using assms(5) l assms(2,4) unfolding add_token_eq [OF assms(1-4)]
    by (auto simp: sum_list_map_update [where f = sum_list] sum_list_bump)
qed

lemma add_token_tokens:
  assumes "shape s K V D" "d < D" "w < V" "z < K" "add_token d w z v s = Inr s'"
  shows "WS s' = WS s \<and> DS s' = DS s \<and> ZS s' = ZS s"
  using assms(5) unfolding add_token_eq [OF assms(1-4)] by auto


lemma shape_ZS_update [simp]: "shape (s\<lparr>ZS := zs\<rparr>) K V D = shape s K V D"
  by (simp add: shape_def)

lemma balanced_ZS_update [simp]: "balanced (s\<lparr>ZS := zs\<rparr>) = balanced s"
  by (simp add: balanced_def)

lemma init_tokens_inv:
  assumes "0 < K" "shape s (nat K) V D" "balanced s"
    and "\<forall>i\<in>set is. i < length (WS s) \<and> i < length (DS s) \<and> WS s ! i < V \<and> DS s ! i < D"
  shows "\<exists>s'. init_tokens K is s = Inr s' \<and> shape s' (nat K) V D \<and> balanced s' \<and>
           (\<Sum>row\<leftarrow>ndz s'. sum_list row) = (\<Sum>row\<leftarrow>ndz s. sum_list row) + int (length is) \<and>
           WS s' = WS s \<and> DS s' = DS s \<and> length (ZS s') = length (ZS s) \<and>
           (\<forall>j < length (ZS s). j \<in> set is \<or> ZS s ! j < nat K \<longrightarrow> ZS s' ! j < nat K)"
  using assms(2-)
proof (induction "is" arbitrary: s)
  case Nil
  then show ?case by simp
next
  case (Cons i "is")
  let ?z = "nat (int i mod K)"
  let ?s0 = "s\<lparr>ZS := (ZS s)[i := ?z]\<rparr>"
  have z: "?z < nat K" using assms(1) by (simp add: nat_less_iff)
  have r: "WS s ! i < V" "DS s ! i < D" "i < length (WS s)" "i < length (DS s)"
    using Cons.prems(3) by auto
  have sh0: "shape ?s0 (nat K) V D" using Cons.prems(1) by simp
  have e: "add_token (DS s ! i) (WS s ! i) ?z 1 ?s0 = add_token (DS ?s0 ! i) (WS ?s0 ! i) ?z 1 ?s0"
    by simp
  obtain s1 where s1: "add_token (DS s ! i) (WS s ! i) ?z 1 ?s0 = Inr s1"
    using add_token_eq [OF sh0 r(2) r(1) z, of 1] by simp
  have sh1: "shape s1 (nat K) V D" by (rule add_token_shape [OF sh0 r(2) r(1) z s1])
  have b1: "balanced s1"
    using add_token_balanced [OF sh0 r(2) r(1) z s1] Cons.prems(2) by simp
  have t1: "(\<Sum>row\<leftarrow>ndz s1. sum_list row) = (\<Sum>row\<leftarrow>ndz s. sum_list row) + 1"
    using add_token_total [OF sh0 r(2) r(1) z s1] by simp
  have k1: "WS s1 = WS s" "DS s1 = DS s" "ZS s1 = (ZS s)[i := ?z]"
    using add_token_tokens [OF sh0 r(2) r(1) z s1] by simp_all
  have "\<forall>i\<in>set is. i < length (WS s1) \<and> i < length (DS s1) \<and> WS s1 ! i < V \<and> DS s1 ! i < D"
    using Cons.prems(3) k1 by simp
  from Cons.IH [OF sh1 b1 this] obtain s' where
    s': "init_tokens K is s1 = Inr s'" "shape s' (nat K) V D" "balanced s'"
      "(\<Sum>row\<leftarrow>ndz s'. sum_list row) = (\<Sum>row\<leftarrow>ndz s1. sum_list row) + int (length is)"
      "WS s' = WS s1" "DS s' = DS s1" "length (ZS s') = length (ZS s1)"
      "\<forall>j < length (ZS s1). j \<in> set is \<or> ZS s1 ! j < nat K \<longrightarrow> ZS s' ! j < nat K"
    by blast
  have "init_tokens K (i # is) s = Inr s'"
    using assms(1) r s1 s'(1) by (simp add: Let_def)
  moreover have "\<forall>j < length (ZS s). j \<in> set (i # is) \<or> ZS s ! j < nat K \<longrightarrow> ZS s' ! j < nat K"
  proof (intro allI impI)
    fix j assume j: "j < length (ZS s)" and h: "j \<in> set (i # is) \<or> ZS s ! j < nat K"
    have "j \<in> set is \<or> (ZS s)[i := ?z] ! j < nat K"
    proof (cases "j = i")
      case True
      then have "(ZS s)[i := ?z] ! j = ?z" using j by simp
      then show ?thesis using z by simp
    next
      case False
      then show ?thesis using h by auto
    qed
    then show "ZS s' ! j < nat K" using s'(8) k1(3) j by auto
  qed
  ultimately show ?case
    using s'(2-7) t1 k1 by auto
qed

lemma WS_bound:
  assumes "rect X"
  shows "\<forall>w\<in>set (fst (matrix_to_lists X)). w < ncols X"
  using assms by (auto simp: matrix_to_lists_def rect_def list_all_iff)

lemma DS_bound: "\<forall>d\<in>set (snd (matrix_to_lists X)). d < length X"
  by (auto simp: matrix_to_lists_def)

lemma zero_counts_balanced:
  "balanced \<lparr>nzw = replicate K (replicate W 0), ndz = replicate D (replicate K 0),
      nz = replicate K 0, WS = ws, DS = ds, ZS = zs, \<dots> = m\<rparr>"
  by (simp add: balanced_def sum_list_replicate
      sum_list_triv [where r = "0::int", simplified] cong: map_cong)


lemma initialize_inv:
  assumes X: "rect X" and i: "initialize c X = Inr s"
  shows "count_inv s (nat (n_topics c)) (ncols X) (length X) (total X)"
proof -
  let ?K = "nat (n_topics c)"
  obtain ws ds where m: "matrix_to_lists X = (ws, ds)" by (cases "matrix_to_lists X")
  have lw: "length ws = total X" using length_WS [of X] m by simp
  have ld: "length ds = total X" using length_DS [of X] m by simp
  have wb: "\<forall>w\<in>set ws. w < ncols X" using WS_bound [OF X] m by simp
  have db: "\<forall>d\<in>set ds. d < length X" using DS_bound [of X] m by simp
  have n0: "\<not> n_topics c < 0" using i by (auto simp: initialize_def Let_def)
  obtain comp where comp: "smoothed_rows (eta c) (replicate ?K (replicate (ncols X) 0)) = Inr comp"
    using i n0 by (cases "smoothed_rows (eta c) (replicate ?K (replicate (ncols X) 0))")
      (auto simp: initialize_def Let_def m)
  let ?s0 = "\<lparr>nzw = replicate ?K (replicate (ncols X) 0), ndz = replicate (length X) (replicate ?K 0),
              nz = replicate ?K 0, WS = ws, DS = ds, ZS = replicate (length ws) 0,
              heap = [comp], components = 0, topic_word_new = 0\<rparr>"
  have run: "init_tokens (n_topics c) [0..<total X] ?s0 = Inr s"
    using i n0 lw by (simp add: initialize_def Let_def m comp)
  have sh0: "shape ?s0 ?K (ncols X) (length X)" by (simp add: shape_def list_all_length)
  have b0: "balanced ?s0" by (rule zero_counts_balanced)
  have t0: "(\<Sum>row\<leftarrow>ndz ?s0. sum_list row) = 0"
    by (simp add: sum_list_replicate sum_list_triv [where r = "0::int", simplified] cong: map_cong)
  show ?thesis
  proof (cases "total X = 0")
    case True
    then have "s = ?s0" using run by simp
    then show ?thesis
      using sh0 b0 t0 True lw ld by (simp add: count_inv_def tokens_ok_def)
  next
    case False
    then have u: "[0..<total X] = 0 # [1..<total X]" by (simp add: upt_conv_Cons)
    have Kpos: "0 < n_topics c"
    proof (rule ccontr)
      assume "\<not> 0 < n_topics c"
      then have "n_topics c = 0" using n0 by simp
      then show False using run lw ld False by (simp add: u)
    qed
    have r: "\<forall>i\<in>set [0..<total X]. i < length (WS ?s0) \<and> i < length (DS ?s0) \<and>
               WS ?s0 ! i < ncols X \<and> DS ?s0 ! i < length X"
      using lw ld wb db by simp
    from init_tokens_inv [OF Kpos sh0 b0 r] run obtain
      s': "shape s ?K (ncols X) (length X)" "balanced s"
        "(\<Sum>row\<leftarrow>ndz s. sum_list row) = (\<Sum>row\<leftarrow>ndz ?s0. sum_list row) + int (length [0..<total X])"
        "WS s = ws" "DS s = ds" "length (ZS s) = length ws"
        "\<forall>j < length ws. j \<in> set [0..<total X] \<or> ZS ?s0 ! j < ?K \<longrightarrow> ZS s ! j < ?K"
      by auto
    have "list_all (\<lambda>z. z < ?K) (ZS s)"
      using s'(6,7) lw by (simp add: list_all_length)
    then show ?thesis
      using s' t0 lw ld wb db by (simp add: count_inv_def tokens_ok_def list_all_iff)
  qed
qed

lemma sequence_err_length: "sequence_err xs = Inr ys \<Longrightarrow> length ys = length xs"
proof (induction xs arbitrary: ys)
  case Nil
  then show ?case by simp
next
  case (Cons x xs)
  then show ?case by (auto simp: bind_err_def split: sum.splits)
qed

lemma first_exceeding_bound:
  "first_exceeding xs acc u k0 = Some k \<Longrightarrow> k < k0 + length xs"
proof (induction xs arbitrary: acc k0)
  case Nil
  then show ?case by simp
next
  case (Cons x xs)
  show ?case
  proof (cases "u < acc + x")
    case True
    then show ?thesis using Cons.prems by simp
  next
    case False
    then have "first_exceeding xs (acc + x) u (Suc k0) = Some k" using Cons.prems by simp
    from Cons.IH [OF this] show ?thesis by simp
  qed
qed

lemma draw_bound: "draw ws r = Inr k \<Longrightarrow> k < length ws"
  using first_exceeding_bound [of ws 0 "r * sum_list ws" 0 k]
  by (auto simp: draw_def split: option.splits)

lemma sample_token_inv:
  assumes inv: "count_inv s K V D N" and K: "K = nat (n_topics c)" and i: "i < N"
    and run: "sample_token c twa rands i s = Inr s'"
  shows "count_inv s' K V D N"
proof -
  let ?w = "WS s ! i" and ?d = "DS s ! i" and ?z = "ZS s ! i"
  have sh: "shape s K V D" and tk: "tokens_ok s D K" and lw: "length (WS s) = N"
    and wv: "list_all (\<lambda>w. w < V) (WS s)" and b: "balanced s"
    and t: "(\<Sum>row\<leftarrow>ndz s. sum_list row) = int N"
    using inv by (simp_all add: count_inv_def)
  have l: "length (DS s) = N" "length (ZS s) = N" using tk lw by (simp_all add: tokens_ok_def)
  have r: "?d < D" "?w < V" "?z < K"
    using tk wv i lw l by (simp_all add: tokens_ok_def list_all_length)
  obtain s1 where s1: "add_token ?d ?w ?z (- 1) s = Inr s1"
    using add_token_eq [OF sh r(1) r(2) r(3), of "- 1"] by simp
  have sh1: "shape s1 K V D" by (rule add_token_shape [OF sh r(1) r(2) r(3) s1])
  have b1: "balanced s1" by (rule add_token_balanced [OF sh r(1) r(2) r(3) s1 b])
  have t1: "(\<Sum>row\<leftarrow>ndz s1. sum_list row) = int N - 1"
    using add_token_total [OF sh r(1) r(2) r(3) s1] t by simp
  have k1: "WS s1 = WS s" "DS s1 = DS s" "ZS s1 = ZS s"
    using add_token_tokens [OF sh r(1) r(2) r(3) s1] by simp_all
  obtain ws k where ws: "sequence_err (map (weight c twa s1 ?d ?w) [0..<nat (n_topics c)]) = Inr ws"
    and k: "draw ws (rands ! (i mod length rands)) = Inr k"
    and fin: "add_token ?d ?w k 1 (s1\<lparr>ZS := (ZS s1)[i := k]\<rparr>) = Inr s'"
    using run i lw l s1
    by (auto simp: sample_token_def Let_def bind_err_def split: if_splits sum.splits)
  have kK: "k < K" using draw_bound [OF k] sequence_err_length [OF ws] K by simp
  let ?s2 = "s1\<lparr>ZS := (ZS s1)[i := k]\<rparr>"
  have sh2: "shape ?s2 K V D" using sh1 by simp
  have b2: "balanced ?s2" using b1 by simp
  have sh': "shape s' K V D" by (rule add_token_shape [OF sh2 r(1) r(2) kK fin])
  have b': "balanced s'" by (rule add_token_balanced [OF sh2 r(1) r(2) kK fin b2])
  have t': "(\<Sum>row\<leftarrow>ndz s'. sum_list row) = int N"
    using add_token_total [OF sh2 r(1) r(2) kK fin] t1 by simp
  have k': "WS s' = WS s" "DS s' = DS s" "ZS s' = (ZS s)[i := k]"
    using add_token_tokens [OF sh2 r(1) r(2) kK fin] k1 by simp_all
  have "list_all (\<lambda>z. z < K) ((ZS s)[i := k])"
    using tk kK by (auto simp: tokens_ok_def list_all_iff dest: set_update_subset_insert [THEN subsetD])
  then have "tokens_ok s' D K" using tk k' by (simp add: tokens_ok_def)
  then show ?thesis using sh' b' t' k' lw wv by (simp add: count_inv_def)
qed

lemma sample_pass_inv:
  assumes "count_inv s K V D N" "K = nat (n_topics c)" "\<forall>i\<in>set is. i < N"
    and "sample_pass c twa rands is s = Inr s'"
  shows "count_inv s' K V D N"
  using assms
proof (induction "is" arbitrary: s)
  case Nil
  then show ?case by simp
next
  case (Cons i "is")
  from Cons.prems(4) obtain s1 where
    s1: "sample_token c twa rands i s = Inr s1" "sample_pass c twa rands is s1 = Inr s'"
    by (auto simp: bind_err_def split: sum.splits)
  have "count_inv s1 K V D N"
    using sample_token_inv [OF Cons.prems(1,2) _ s1(1)] Cons.prems(3) by simp
  from Cons.IH [OF this Cons.prems(2) _ s1(2)] Cons.prems(3) show ?case by simp
qed

lemma sample_topics_inv:
  assumes "count_inv s K V D N" "K = nat (n_topics c)" "sample_topics c rands s = Inr s'"
  shows "count_inv s' K V D N"
proof -
  have "length (WS s) = N" using assms(1) by (simp add: count_inv_def)
  then show ?thesis
    using sample_pass_inv [OF assms(1,2) _ assms(3) [unfolded sample_topics_def]] by simp
qed

lemma adjust_step_counts:
  assumes "adjust_step c X s = Inr s'"
  shows "nzw s' = nzw s \<and> ndz s' = ndz s \<and> nz s' = nz s \<and> WS s' = WS s \<and> DS s' = DS s \<and>
         ZS s' = ZS s"
  using assms
  by (auto simp: adjust_step_def Let_def bind_err_def split: sum.splits)

lemma count_inv_cong:
  assumes "nzw s' = nzw s \<and> ndz s' = ndz s \<and> nz s' = nz s \<and> WS s' = WS s \<and> DS s' = DS s \<and>
         ZS s' = ZS s"
  shows "count_inv s' K V D N = count_inv s K V D N"
  using assms by (simp add: count_inv_def shape_def tokens_ok_def balanced_def)

lemma reach_count_inv:
  assumes "rect X" "reach c X s"
  shows "count_inv s (nat (n_topics c)) (ncols X) (length X) (total X)"
  using assms(2)
proof (induction rule: reach.induct)
  case (reach_init s)
  then show ?case by (rule initialize_inv [OF assms(1)])
next
  case (reach_pass s rands s')
  then show ?case using sample_topics_inv by blast
next
  case (reach_adjust s s')
  then show ?case using count_inv_cong [OF adjust_step_counts] by blast
qed


lemma fit_iter_reach:
  "reach c X s \<Longrightarrow> fit_iter c X rands its s = Inr s' \<Longrightarrow> reach c X s'"
proof (induction its arbitrary: s)
  case Nil
  then show ?case by simp
next
  case (Cons it its)
  from Cons.prems(2) obtain s1 s2 where
    s1: "sample_topics c (rands it) s = Inr s1"
    and s2: "(if it mod 2 = 0 then adjust_step c X s1 else Inr s1) = Inr s2"
    and r: "fit_iter c X rands its s2 = Inr s'"
    by (auto simp: bind_err_def split: if_splits sum.splits)
  have "reach c X s1" by (rule reach_pass [OF Cons.prems(1) s1])
  then have "reach c X s2" using s2 by (auto split: if_splits intro: reach_adjust)
  then show ?case using r by (rule Cons.IH)
qed

text \<open>
  Every update of the counters keeps them exact: an insertion of a token adds its position
  to the counted set, a removal takes it out, and the assignment of a position outside the
  set changes nothing. So every counter of a reachable state, and of every state inside a
  pass, is a number of tokens of the matrix.
\<close>

lemma occurrences_insert:
  assumes "finite P" "i \<notin> P"
  shows "occurrences (insert i P) Q = occurrences P Q + (if Q i then 1 else 0)"
proof (cases "Q i")
  case True
  then have e: "{j \<in> insert i P. Q j} = insert i {j \<in> P. Q j}" by auto
  have "i \<notin> {j \<in> P. Q j}" "finite {j \<in> P. Q j}" using assms by simp_all
  then have "card (insert i {j \<in> P. Q j}) = Suc (card {j \<in> P. Q j})"
    by (rule card_insert_disjoint [rotated])
  then show ?thesis unfolding occurrences_def e using True by simp
next
  case False
  then have e: "{j \<in> insert i P. Q j} = {j \<in> P. Q j}" by auto
  show ?thesis unfolding occurrences_def e using False by simp
qed

lemma occurrences_remove:
  assumes "finite P" "i \<in> P"
  shows "occurrences (P - {i}) Q = occurrences P Q - (if Q i then 1 else 0)"
proof (cases "Q i")
  case True
  have e: "{j \<in> P - {i}. Q j} = {j \<in> P. Q j} - {i}" by auto
  have f: "finite {j \<in> P. Q j}" using assms by simp
  have m: "i \<in> {j \<in> P. Q j}" using True assms by simp
  then have "0 < card {j \<in> P. Q j}" using f by (auto simp: card_gt_0_iff)
  moreover have "card ({j \<in> P. Q j} - {i}) = card {j \<in> P. Q j} - 1"
    using m by (rule card_Diff_singleton)
  ultimately show ?thesis unfolding occurrences_def e using True by (simp add: of_nat_diff)
next
  case False
  then have e: "{j \<in> P - {i}. Q j} = {j \<in> P. Q j}" by auto
  show ?thesis unfolding occurrences_def e using False by simp
qed

lemma occurrences_cong:
  assumes "\<And>j. j \<in> P \<Longrightarrow> Q j = Q' j"
  shows "occurrences P Q = occurrences P Q'"
proof -
  have "{j \<in> P. Q j} = {j \<in> P. Q' j}" using assms by auto
  then show ?thesis by (simp add: occurrences_def)
qed

lemma occurrences_range:
  assumes "finite P"
  shows "0 \<le> occurrences P Q \<and> occurrences P Q \<le> int (card P)"
proof -
  have "card {j \<in> P. Q j} \<le> card P" using assms by (intro card_mono) auto
  then show ?thesis by (simp add: occurrences_def)
qed

lemma add_token_exact_insert:
  assumes sh: "shape s K V D" and r: "d < D" "w < V" "z < K"
    and run: "add_token d w z 1 s = Inr s'"
    and e: "exact s P" and f: "finite P" and i: "i \<notin> P"
    and t: "ZS s ! i = z" "WS s ! i = w" "DS s ! i = d"
  shows "exact s' (insert i P)"
proof -
  have s': "s' = s\<lparr>nzw := (nzw s)[z := (nzw s ! z)[w := nzw s ! z ! w + 1]],
                   ndz := (ndz s)[d := (ndz s ! d)[z := ndz s ! d ! z + 1]],
                   nz := (nz s)[z := nz s ! z + 1]\<rparr>"
    using run unfolding add_token_eq [OF sh r] by simp
  have l: "length (nzw s) = K" "length (ndz s) = D" "length (nz s) = K"
    "length (nzw s ! z) = V" "length (ndz s ! d) = K"
    using sh r by (simp_all add: shape_def list_all_length)
  have a: "(nzw s)[z := (nzw s ! z)[w := nzw s ! z ! w + 1]] ! z' ! w'
           = occurrences (insert i P) (\<lambda>j. ZS s ! j = z' \<and> WS s ! j = w')"
    if "z' < length (nzw s)" "w' < length ((nzw s)[z := (nzw s ! z)[w := nzw s ! z ! w + 1]] ! z')"
    for z' w'
  proof -
    have "w' < length (nzw s ! z')" using that l by (cases "z' = z") simp_all
    then have "nzw s ! z' ! w' = occurrences P (\<lambda>j. ZS s ! j = z' \<and> WS s ! j = w')"
      using e that(1) by (simp add: exact_def)
    then show ?thesis
      using that l r t by (auto simp: occurrences_insert [OF f i] nth_list_update)
  qed
  have b: "(ndz s)[d := (ndz s ! d)[z := ndz s ! d ! z + 1]] ! d' ! z'
           = occurrences (insert i P) (\<lambda>j. DS s ! j = d' \<and> ZS s ! j = z')"
    if "d' < length (ndz s)" "z' < length ((ndz s)[d := (ndz s ! d)[z := ndz s ! d ! z + 1]] ! d')"
    for d' z'
  proof -
    have "z' < length (ndz s ! d')" using that l by (cases "d' = d") simp_all
    then have "ndz s ! d' ! z' = occurrences P (\<lambda>j. DS s ! j = d' \<and> ZS s ! j = z')"
      using e that(1) by (simp add: exact_def)
    then show ?thesis
      using that l r t by (auto simp: occurrences_insert [OF f i] nth_list_update)
  qed
  have c: "(nz s)[z := nz s ! z + 1] ! z' = occurrences (insert i P) (\<lambda>j. ZS s ! j = z')"
    if "z' < length (nz s)" for z'
  proof -
    have "nz s ! z' = occurrences P (\<lambda>j. ZS s ! j = z')"
      using e that by (simp add: exact_def)
    then show ?thesis
      using that l r t by (auto simp: occurrences_insert [OF f i] nth_list_update)
  qed
  show ?thesis unfolding exact_def s' using a b c by simp
qed

lemma add_token_exact_remove:
  assumes sh: "shape s K V D" and r: "d < D" "w < V" "z < K"
    and run: "add_token d w z (- 1) s = Inr s'"
    and e: "exact s P" and f: "finite P" and i: "i \<in> P"
    and t: "ZS s ! i = z" "WS s ! i = w" "DS s ! i = d"
  shows "exact s' (P - {i})"
proof -
  have s': "s' = s\<lparr>nzw := (nzw s)[z := (nzw s ! z)[w := nzw s ! z ! w + - 1]],
                   ndz := (ndz s)[d := (ndz s ! d)[z := ndz s ! d ! z + - 1]],
                   nz := (nz s)[z := nz s ! z + - 1]\<rparr>"
    using run unfolding add_token_eq [OF sh r] by simp
  have l: "length (nzw s) = K" "length (ndz s) = D" "length (nz s) = K"
    "length (nzw s ! z) = V" "length (ndz s ! d) = K"
    using sh r by (simp_all add: shape_def list_all_length)
  have a: "(nzw s)[z := (nzw s ! z)[w := nzw s ! z ! w + - 1]] ! z' ! w'
           = occurrences (P - {i}) (\<lambda>j. ZS s ! j = z' \<and> WS s ! j = w')"
    if "z' < length (nzw s)" "w' < length ((nzw s)[z := (nzw s ! z)[w := nzw s ! z ! w + - 1]] ! z')"
    for z' w'
  proof -
    have "w' < length (nzw s ! z')" using that l by (cases "z' = z") simp_all
    then have "nzw s ! z' ! w' = occurrences P (\<lambda>j. ZS s ! j = z' \<and> WS s ! j = w')"
      using e that(1) by (simp add: exact_def)
    then show ?thesis
      using that l r t by (auto simp: occurrences_remove [OF f i] nth_list_update)
  qed
  have b: "(ndz s)[d := (ndz s ! d)[z := ndz s ! d ! z + - 1]] ! d' ! z'
           = occurrences (P - {i}) (\<lambda>j. DS s ! j = d' \<and> ZS s ! j = z')"
    if "d' < length (ndz s)" "z' < length ((ndz s)[d := (ndz s ! d)[z := ndz s ! d ! z + - 1]] ! d')"
    for d' z'
  proof -
    have "z' < length (ndz s ! d')" using that l by (cases "d' = d") simp_all
    then have "ndz s ! d' ! z' = occurrences P (\<lambda>j. DS s ! j = d' \<and> ZS s ! j = z')"
      using e that(1) by (simp add: exact_def)
    then show ?thesis
      using that l r t by (auto simp: occurrences_remove [OF f i] nth_list_update)
  qed
  have c: "(nz s)[z := nz s ! z + - 1] ! z' = occurrences (P - {i}) (\<lambda>j. ZS s ! j = z')"
    if "z' < length (nz s)" for z'
  proof -
    have "nz s ! z' = occurrences P (\<lambda>j. ZS s ! j = z')"
      using e that by (simp add: exact_def)
    then show ?thesis
      using that l r t by (auto simp: occurrences_remove [OF f i] nth_list_update)
  qed
  show ?thesis unfolding exact_def s' using a b c by simp
qed

lemma exact_ZS_update:
  assumes "exact s P" "i \<notin> P"
  shows "exact (s\<lparr>ZS := (ZS s)[i := k]\<rparr>) P"
proof -
  have n: "(ZS s)[i := k] ! j = ZS s ! j" if "j \<in> P" for j
    using that assms(2) by (cases "j = i") auto
  have "occurrences P (\<lambda>j. (ZS s)[i := k] ! j = z \<and> WS s ! j = w)
          = occurrences P (\<lambda>j. ZS s ! j = z \<and> WS s ! j = w)"
    "occurrences P (\<lambda>j. DS s ! j = d \<and> (ZS s)[i := k] ! j = z)
          = occurrences P (\<lambda>j. DS s ! j = d \<and> ZS s ! j = z)"
    "occurrences P (\<lambda>j. (ZS s)[i := k] ! j = z) = occurrences P (\<lambda>j. ZS s ! j = z)" for z w d
    by (rule occurrences_cong, simp add: n)+
  then show ?thesis using assms(1) by (simp add: exact_def)
qed

lemma exact_cong:
  assumes "nzw s' = nzw s \<and> ndz s' = ndz s \<and> nz s' = nz s \<and> WS s' = WS s \<and> DS s' = DS s \<and>
         ZS s' = ZS s"
  shows "exact s' P = exact s P"
  using assms by (simp add: exact_def)

lemma init_tokens_exact:
  assumes "0 < K" "shape s (nat K) V D" "exact s P" "finite P" "distinct is" "set is \<inter> P = {}"
    and "\<forall>i\<in>set is. i < length (WS s) \<and> i < length (DS s) \<and> i < length (ZS s) \<and>
           WS s ! i < V \<and> DS s ! i < D"
    and "init_tokens K is s = Inr s'"
  shows "exact s' (P \<union> set is)"
  using assms(2-)
proof (induction "is" arbitrary: s P)
  case Nil
  then show ?case by simp
next
  case (Cons i "is")
  let ?z = "nat (int i mod K)"
  let ?s0 = "s\<lparr>ZS := (ZS s)[i := ?z]\<rparr>"
  have z: "?z < nat K" using assms(1) by (simp add: nat_less_iff)
  have r: "WS s ! i < V" "DS s ! i < D" "i < length (WS s)" "i < length (DS s)" "i < length (ZS s)"
    using Cons.prems(6) by auto
  have iP: "i \<notin> P" using Cons.prems(5) by auto
  have sh0: "shape ?s0 (nat K) V D" using Cons.prems(1) by simp
  obtain s1 where s1: "add_token (DS s ! i) (WS s ! i) ?z 1 ?s0 = Inr s1"
    using add_token_eq [OF sh0 r(2) r(1) z, of 1] by simp
  have run: "init_tokens K is s1 = Inr s'"
    using Cons.prems(7) assms(1) r s1 by (simp add: Let_def)
  have sh1: "shape s1 (nat K) V D" by (rule add_token_shape [OF sh0 r(2) r(1) z s1])
  have k1: "WS s1 = WS s" "DS s1 = DS s" "ZS s1 = (ZS s)[i := ?z]"
    using add_token_tokens [OF sh0 r(2) r(1) z s1] by simp_all
  have e0: "exact ?s0 P" by (rule exact_ZS_update [OF Cons.prems(2) iP])
  have t0: "ZS ?s0 ! i = ?z" "WS ?s0 ! i = WS s ! i" "DS ?s0 ! i = DS s ! i"
    using r(5) by simp_all
  have e1: "exact s1 (insert i P)"
    by (rule add_token_exact_insert [OF sh0 r(2) r(1) z s1 e0 Cons.prems(3) iP t0])
  have d: "distinct is" "set is \<inter> insert i P = {}" using Cons.prems(4,5) by auto
  have b: "\<forall>j\<in>set is. j < length (WS s1) \<and> j < length (DS s1) \<and> j < length (ZS s1) \<and>
             WS s1 ! j < V \<and> DS s1 ! j < D"
    using Cons.prems(6) k1 by simp
  have "exact s' (insert i P \<union> set is)"
    using Cons.IH [OF sh1 e1 _ d b run] Cons.prems(3) by simp
  then show ?case by simp
qed

lemma initialize_exact:
  assumes X: "rect X" and i: "initialize c X = Inr s"
  shows "exact s {..<total X}"
proof -
  let ?K = "nat (n_topics c)"
  obtain ws ds where m: "matrix_to_lists X = (ws, ds)" by (cases "matrix_to_lists X")
  have lw: "length ws = total X" using length_WS [of X] m by simp
  have ld: "length ds = total X" using length_DS [of X] m by simp
  have wb: "\<forall>w\<in>set ws. w < ncols X" using WS_bound [OF X] m by simp
  have db: "\<forall>d\<in>set ds. d < length X" using DS_bound [of X] m by simp
  have n0: "\<not> n_topics c < 0" using i by (auto simp: initialize_def Let_def)
  obtain cmps where cmps: "smoothed_rows (eta c) (replicate ?K (replicate (ncols X) 0)) = Inr cmps"
    using i n0 by (cases "smoothed_rows (eta c) (replicate ?K (replicate (ncols X) 0))")
      (auto simp: initialize_def Let_def m)
  let ?s0 = "\<lparr>nzw = replicate ?K (replicate (ncols X) 0), ndz = replicate (length X) (replicate ?K 0),
              nz = replicate ?K 0, WS = ws, DS = ds, ZS = replicate (length ws) 0,
              heap = [cmps], components = 0, topic_word_new = 0\<rparr>"
  have run: "init_tokens (n_topics c) [0..<total X] ?s0 = Inr s"
    using i n0 lw by (simp add: initialize_def Let_def m cmps)
  have sh0: "shape ?s0 ?K (ncols X) (length X)" by (simp add: shape_def list_all_length)
  have e0: "exact ?s0 {}" by (simp add: exact_def occurrences_def)
  show ?thesis
  proof (cases "total X = 0")
    case True
    then have "s = ?s0" using run by simp
    then show ?thesis using e0 True by simp
  next
    case False
    then have u: "[0..<total X] = 0 # [1..<total X]" by (simp add: upt_conv_Cons)
    have Kpos: "0 < n_topics c"
    proof (rule ccontr)
      assume "\<not> 0 < n_topics c"
      then have "n_topics c = 0" using n0 by simp
      then show False using run lw ld False by (simp add: u)
    qed
    have r: "\<forall>i\<in>set [0..<total X]. i < length (WS ?s0) \<and> i < length (DS ?s0) \<and>
               i < length (ZS ?s0) \<and> WS ?s0 ! i < ncols X \<and> DS ?s0 ! i < length X"
      using lw ld wb db by simp
    have "exact s ({} \<union> set [0..<total X])"
      by (rule init_tokens_exact [OF Kpos sh0 e0 _ _ _ r run]) simp_all
    then show ?thesis by (simp add: atLeast0LessThan)
  qed
qed

lemma sample_token_exact:
  assumes inv: "count_inv s K V D N" and K: "K = nat (n_topics c)" and i: "i < N"
    and run: "sample_token c twa rands i s = Inr s'"
    and e: "exact s P" and f: "finite P" and iP: "i \<in> P"
  shows "exact s' P"
proof -
  let ?w = "WS s ! i" and ?d = "DS s ! i" and ?z = "ZS s ! i"
  have sh: "shape s K V D" and tk: "tokens_ok s D K" and lw: "length (WS s) = N"
    and wv: "list_all (\<lambda>w. w < V) (WS s)"
    using inv by (simp_all add: count_inv_def)
  have l: "length (DS s) = N" "length (ZS s) = N" using tk lw by (simp_all add: tokens_ok_def)
  have r: "?d < D" "?w < V" "?z < K"
    using tk wv i lw l by (simp_all add: tokens_ok_def list_all_length)
  obtain s1 where s1: "add_token ?d ?w ?z (- 1) s = Inr s1"
    using add_token_eq [OF sh r(1) r(2) r(3), of "- 1"] by simp
  have sh1: "shape s1 K V D" by (rule add_token_shape [OF sh r(1) r(2) r(3) s1])
  have k1: "WS s1 = WS s" "DS s1 = DS s" "ZS s1 = ZS s"
    using add_token_tokens [OF sh r(1) r(2) r(3) s1] by simp_all
  obtain ws k where ws: "sequence_err (map (weight c twa s1 ?d ?w) [0..<nat (n_topics c)]) = Inr ws"
    and k: "draw ws (rands ! (i mod length rands)) = Inr k"
    and fin: "add_token ?d ?w k 1 (s1\<lparr>ZS := (ZS s1)[i := k]\<rparr>) = Inr s'"
    using run i lw l s1
    by (auto simp: sample_token_def Let_def bind_err_def split: if_splits sum.splits)
  have kK: "k < K" using draw_bound [OF k] sequence_err_length [OF ws] K by simp
  let ?s2 = "s1\<lparr>ZS := (ZS s1)[i := k]\<rparr>"
  have sh2: "shape ?s2 K V D" using sh1 by simp
  have e1: "exact s1 (P - {i})"
    by (rule add_token_exact_remove [OF sh r(1) r(2) r(3) s1 e f iP]) simp_all
  have e2: "exact ?s2 (P - {i})" by (rule exact_ZS_update [OF e1]) simp
  have t2: "ZS ?s2 ! i = k" "WS ?s2 ! i = ?w" "DS ?s2 ! i = ?d"
    using k1 l i by simp_all
  have "exact s' (insert i (P - {i}))"
    by (rule add_token_exact_insert [OF sh2 r(1) r(2) kK fin e2 _ _ t2]) (use f in simp_all)
  then show ?thesis using iP by (simp add: insert_absorb)
qed

lemma sample_pass_exact:
  assumes "count_inv s K V D N" "K = nat (n_topics c)" "\<forall>i\<in>set is. i < N \<and> i \<in> P"
    and "sample_pass c twa rands is s = Inr s'" and "exact s P" "finite P"
  shows "exact s' P"
  using assms
proof (induction "is" arbitrary: s)
  case Nil
  then show ?case by simp
next
  case (Cons i "is")
  from Cons.prems(4) obtain s1 where
    s1: "sample_token c twa rands i s = Inr s1" "sample_pass c twa rands is s1 = Inr s'"
    by (auto simp: bind_err_def split: sum.splits)
  have i: "i < N" "i \<in> P" using Cons.prems(3) by simp_all
  have c1: "count_inv s1 K V D N"
    by (rule sample_token_inv [OF Cons.prems(1,2) i(1) s1(1)])
  have e1: "exact s1 P"
    by (rule sample_token_exact [OF Cons.prems(1,2) i(1) s1(1) Cons.prems(5,6) i(2)])
  have "\<forall>i\<in>set is. i < N \<and> i \<in> P" using Cons.prems(3) by simp
  from Cons.IH [OF c1 Cons.prems(2) this s1(2) e1 Cons.prems(6)] show ?case .
qed

lemma reach_exact:
  assumes "rect X" "reach c X s"
  shows "exact s {..<total X}"
  using assms(2)
proof (induction rule: reach.induct)
  case (reach_init s)
  then show ?case by (rule initialize_exact [OF assms(1)])
next
  case (reach_pass s rands s')
  have ci: "count_inv s (nat (n_topics c)) (ncols X) (length X) (total X)"
    by (rule reach_count_inv [OF assms(1) reach_pass(1)])
  then have lw: "length (WS s) = total X" by (simp add: count_inv_def)
  have "\<forall>i\<in>set [0..<length (WS s)]. i < total X \<and> i \<in> {..<total X}" using lw by simp
  from sample_pass_exact [OF ci refl this reach_pass(2) [unfolded sample_topics_def] reach_pass(3)]
  show ?case by simp
next
  case (reach_adjust s s')
  then show ?case using exact_cong [OF adjust_step_counts] by blast
qed

lemma reach_counters_range:
  assumes "rect X" "reach c X s"
  shows "list_all (list_all (\<lambda>n. 0 \<le> n \<and> n \<le> int (total X))) (nzw s) \<and>
         list_all (list_all (\<lambda>n. 0 \<le> n \<and> n \<le> int (total X))) (ndz s) \<and>
         list_all (\<lambda>n. 0 \<le> n \<and> n \<le> int (total X)) (nz s)"
proof -
  have e: "exact s {..<total X}" by (rule reach_exact [OF assms])
  have o: "0 \<le> occurrences {..<total X} Q \<and> occurrences {..<total X} Q \<le> int (total X)" for Q
    using occurrences_range [of "{..<total X}" Q] by simp
  show ?thesis using e o by (simp add: exact_def list_all_length)
qed

text \<open>
  C1: for a matrix \<open>X\<close> of fewer than \<open>2^31\<close> tokens, in every state that fitting
  \<open>X\<close> reaches, that is after initialisation and after every sampling pass (and every
  adjustment) that follows, for every topic \<open>z\<close> the sum over the words of \<open>nzw[z]\<close>
  equals \<open>nz[z]\<close> and equals the sum over the documents of \<open>ndz[d][z]\<close>, the sum of
  all entries of \<open>ndz\<close> is the number of tokens \<open>N\<close> of \<open>X\<close>, and the token stream
  keeps its length \<open>N\<close>. Every counter lies between 0 and \<open>2^31\<close>, the range of the
  32-bit counters of the code: no addition has wrapped, and the unbounded integers of the
  model are the values that the code holds.
\<close>

theorem counts_invariant:
  assumes "rect X" "total X < 2 ^ 31" "reach c X s"
  shows "(\<forall>z < nat (n_topics c).
            sum_list (nzw s ! z) = nz s ! z \<and> nz s ! z = (\<Sum>row\<leftarrow>ndz s. row ! z)) \<and>
         (\<Sum>row\<leftarrow>ndz s. sum_list row) = int (total X) \<and> length (WS s) = total X \<and>
         list_all (list_all (\<lambda>n. 0 \<le> n \<and> n < 2 ^ 31)) (nzw s) \<and>
         list_all (list_all (\<lambda>n. 0 \<le> n \<and> n < 2 ^ 31)) (ndz s) \<and>
         list_all (\<lambda>n. 0 \<le> n \<and> n < 2 ^ 31) (nz s)"
proof -
  have n: "int (total X) < 2 ^ 31" using assms(2) by simp
  have m: "0 \<le> k \<and> k < 2 ^ 31" if "0 \<le> k \<and> k \<le> int (total X)" for k :: int
    using that n by simp
  have a: "list_all (list_all (\<lambda>n. 0 \<le> n \<and> n < 2 ^ 31)) (nzw s)"
    "list_all (list_all (\<lambda>n. 0 \<le> n \<and> n < 2 ^ 31)) (ndz s)"
    "list_all (\<lambda>n. 0 \<le> n \<and> n < 2 ^ 31) (nz s)"
    using reach_counters_range [OF assms(1,3)] m by (simp_all add: list_all_length)
  have b: "(\<forall>z < nat (n_topics c).
            sum_list (nzw s ! z) = nz s ! z \<and> nz s ! z = (\<Sum>row\<leftarrow>ndz s. row ! z)) \<and>
         (\<Sum>row\<leftarrow>ndz s. sum_list row) = int (total X) \<and> length (WS s) = total X"
    using reach_count_inv [OF assms(1,3)] by (simp add: count_inv_def balanced_def shape_def)
  show ?thesis using a b by blast
qed

theorem counts_invariant_witness:
  "rect [[1, 2], [0, 3::nat]] \<and> total [[1, 2], [0, 3]] < 2 ^ 31 \<and>
   reach \<lparr>n_topics = 2, n_iter = 1, alpha = 1, eta = 1, lamda = 1/2, refresh = 10, emb = Map.empty\<rparr>
     [[1, 2], [0, 3]]
     \<lparr>nzw = [[1, 1], [0, 4]], ndz = [[2, 1], [0, 3]], nz = [2, 4],
        WS = [0, 1, 1, 1, 1, 1], DS = [0, 0, 0, 1, 1, 1],
        ZS = [0, 1, 0, 1, 1, 1], heap = [[[1 / 2, 1 / 2], [1 / 2, 1 / 2]]],
        components = 0, topic_word_new = 0\<rparr> \<and>
   (\<Sum>row\<leftarrow>[[2, 1], [0, 3::int]]. sum_list row) = int (total [[1, 2], [0, 3]]) \<and>
   list_all (\<lambda>n. 0 \<le> n \<and> n < 2 ^ 31) [2, 4::int]"
proof -
  let ?c = "\<lparr>n_topics = 2, n_iter = 1, alpha = 1, eta = 1, lamda = 1/2, refresh = 10,
             emb = Map.empty\<rparr>"
  let ?X = "[[1, 2], [0, 3::nat]]"
  let ?s0 = "\<lparr>nzw = [[1, 2], [0, 3]], ndz = [[2, 1], [1, 2]], nz = [3, 3],
        WS = [0, 1, 1, 1, 1, 1], DS = [0, 0, 0, 1, 1, 1],
        ZS = [0, 1, 0, 1, 0, 1], heap = [[[1 / 2, 1 / 2], [1 / 2, 1 / 2]]],
        components = 0, topic_word_new = 0\<rparr>"
  let ?s1 = "\<lparr>nzw = [[1, 1], [0, 4]], ndz = [[2, 1], [0, 3]], nz = [2, 4],
        WS = [0, 1, 1, 1, 1, 1], DS = [0, 0, 0, 1, 1, 1],
        ZS = [0, 1, 0, 1, 1, 1], heap = [[[1 / 2, 1 / 2], [1 / 2, 1 / 2]]],
        components = 0, topic_word_new = 0\<rparr>"
  have x: "rect ?X" by (simp add: rect_def ncols_def)
  have i: "initialize ?c ?X = Inr ?s0" by code_simp
  have p: "sample_topics ?c [1/4, 3/4] ?s0 = Inr ?s1" by code_simp
  have b: "total ?X < 2 ^ 31" by (simp add: total_def)
  have r: "reach ?c ?X ?s1" by (rule reach_pass [OF reach_init [OF i] p])
  show ?thesis using x b r counts_invariant [OF x b r] by (simp add: total_def)
qed

section \<open>The inference follows the iterated pseudo-count scheme\<close>


lemma map2_nth:
  "length xs = length ys \<Longrightarrow> map2 f xs ys = map (\<lambda>i. f (xs ! i) (ys ! i)) [0..<length xs]"
  by (rule nth_equalityI) simp_all

lemma sum_list_upt_except:
  assumes "i < n"
  shows "(\<Sum>j\<leftarrow>[0..<n]. if j \<noteq> i then f j else 0) = (\<Sum>j\<leftarrow>[0..<n]. f j) - (f i :: real)"
proof -
  have "(\<Sum>j\<leftarrow>[0..<n]. if j \<noteq> i then f j else 0) = (\<Sum>j\<in>{0..<n}. if j \<noteq> i then f j else 0)"
    by (simp add: interv_sum_list_conv_sum_set_nat)
  also have "\<dots> = (\<Sum>j\<in>{0..<n} - {i}. f j)"
    by (rule sum.mono_neutral_cong_right) auto
  also have "\<dots> = (\<Sum>j\<in>{0..<n}. f j) - f i"
    using assms by (simp add: sum_diff1)
  finally show ?thesis by (simp add: interv_sum_list_conv_sum_set_nat)
qed

lemma col_sums_nth:
  "k < K \<Longrightarrow> col_sums P K ! k = (\<Sum>j\<leftarrow>[0..<length P]. P ! j ! k)"
proof -
  assume "k < K"
  have "map (\<lambda>j. P ! j ! k) [0..<length P] = map (\<lambda>row. row ! k) P"
    by (rule nth_equalityI) simp_all
  then show ?thesis using \<open>k < K\<close> by (simp add: col_sums_def)
qed

lemma others_mass_eq:
  "i < length P \<Longrightarrow> k < K \<Longrightarrow> others_mass P i k = col_sums P K ! k - P ! i ! k"
  by (simp add: others_mass_def col_sums_nth sum_list_upt_except)

lemma take_columns_ok:
  "\<forall>w\<in>set doc. w < ncols cmps \<Longrightarrow>
     take_columns cmps doc = Inr (map (\<lambda>w. map (\<lambda>row. row ! w) cmps) doc)"
  by (auto simp: take_columns_def)

lemma unnormalised_step:
  assumes "mat (length doc) (length cmps) PZS"
  shows "map2 (\<lambda>b row. map2 (*) b (map2 (\<lambda>c p. c - p + a) (col_sums PZS (length cmps)) row))
           (map (\<lambda>w. map (\<lambda>row. row ! w) cmps) doc) PZS
         = spec_update cmps a doc PZS"
proof -
  have l: "length PZS = length doc" "\<And>i. i < length doc \<Longrightarrow> length (PZS ! i) = length cmps"
    using assms by (auto simp: mat_def list_all_length)
  show ?thesis
  proof (rule nth_equalityI)
    show "length (map2 (\<lambda>b row. map2 (*) b (map2 (\<lambda>c p. c - p + a) (col_sums PZS (length cmps)) row))
           (map (\<lambda>w. map (\<lambda>row. row ! w) cmps) doc) PZS) = length (spec_update cmps a doc PZS)"
      using l by (simp add: spec_update_def)
  next
    fix i assume "i < length (map2 (\<lambda>b row. map2 (*) b (map2 (\<lambda>c p. c - p + a) (col_sums PZS (length cmps)) row))
           (map (\<lambda>w. map (\<lambda>row. row ! w) cmps) doc) PZS)"
    then have i: "i < length doc" using l by simp
    have "map2 (*) (map (\<lambda>row. row ! (doc ! i)) cmps)
            (map2 (\<lambda>c p. c - p + a) (col_sums PZS (length cmps)) (PZS ! i))
          = map (\<lambda>k. cmps ! k ! (doc ! i) * (others_mass PZS i k + a)) [0..<length cmps]"
      using l i by (intro nth_equalityI) (simp_all add: col_sums_def [where K = "length cmps"]
          others_mass_eq [where K = "length cmps"] col_sums_nth)
    then show "map2 (\<lambda>b row. map2 (*) b (map2 (\<lambda>c p. c - p + a) (col_sums PZS (length cmps)) row))
           (map (\<lambda>w. map (\<lambda>row. row ! w) cmps) doc) PZS ! i = spec_update cmps a doc PZS ! i"
      using l i by (simp add: spec_update_def)
  qed
qed

lemma delta_naive_eq:
  assumes "mat n K A" "mat n K B"
  shows "delta_naive A B = spec_change A B"
proof -
  have l: "length A = n" "length B = n" "\<And>i. i < n \<Longrightarrow> length (A ! i) = K"
    "\<And>i. i < n \<Longrightarrow> length (B ! i) = K"
    using assms by (auto simp: mat_def list_all_length)
  have "map2 (\<lambda>ra rb. sum_list (map2 (\<lambda>x y. \<bar>x - y\<bar>) ra rb)) A B
        = map (\<lambda>i. \<Sum>k\<leftarrow>[0..<length (A ! i)]. \<bar>A ! i ! k - B ! i ! k\<bar>) [0..<length A]"
    using l by (intro nth_equalityI) (simp_all add: map2_nth)
  then show ?thesis by (simp add: delta_naive_def spec_change_def)
qed

lemma sequence_err_nth:
  "sequence_err xs = Inr ys \<Longrightarrow> length ys = length xs \<and> (\<forall>i < length xs. xs ! i = Inr (ys ! i))"
proof (induction xs arbitrary: ys)
  case Nil
  then show ?case by simp
next
  case (Cons x xs)
  then show ?case
    by (auto simp: bind_err_def nth_Cons split: sum.splits nat.splits)
qed

lemma div_row_length: "div_row r s = Inr r' \<Longrightarrow> length r' = length r"
  by (auto simp: div_row_def split: if_splits)

lemma normalize_rows_mat:
  assumes "normalize_rows m = Inr m'" "mat n K m"
  shows "mat n K m'"
proof -
  from sequence_err_nth [OF assms(1) [unfolded normalize_rows_def]]
  have l: "length m' = length m" and r: "\<forall>i < length m. div_row (m ! i) (sum_list (m ! i)) = Inr (m' ! i)"
    by simp_all
  have "length (m' ! i) = length (m ! i)" if "i < length m" for i
    using r that div_row_length by blast
  then show ?thesis using assms(2) l by (simp add: mat_def list_all_length)
qed

lemma spec_update_mat: "mat (length doc) (length cmps) (spec_update cmps a doc PZS)"
  by (simp add: mat_def spec_update_def list_all_length)

lemma pzs_step_eq:
  assumes "mat (length doc) (length cmps) PZS"
  shows "pzs_step (map (\<lambda>w. map (\<lambda>row. row ! w) cmps) doc) a (length cmps) PZS
         = normalize_rows (spec_update cmps a doc PZS)"
  by (simp add: pzs_step_def Let_def unnormalised_step [OF assms])

lemma pzs_loop_eq:
  assumes "\<forall>w\<in>set doc. w < ncols cmps" "mat (length doc) (length cmps) PZS"
  shows "case pzs_loop cmps a tol doc m PZS it of
           Inl e \<Rightarrow> spec_iterate cmps a tol doc m PZS = Inl e
         | Inr (P, it') \<Rightarrow> spec_iterate cmps a tol doc m PZS = Inr P \<and> it' \<le> it + m \<and>
             mat (length doc) (length cmps) P"
  using assms(2)
proof (induction m arbitrary: PZS it)
  case 0
  then show ?case by simp
next
  case (Suc m)
  show ?case
  proof (cases "normalize_rows (spec_update cmps a doc PZS)")
    case (Inl e)
    then show ?thesis
      by (simp add: take_columns_ok [OF assms(1)] pzs_step_eq [OF Suc.prems])
  next
    case (Inr P')
    have m': "mat (length doc) (length cmps) P'"
      by (rule normalize_rows_mat [OF Inr spec_update_mat])
    have d: "delta_naive P' PZS = spec_change P' PZS"
      by (rule delta_naive_eq [OF m' Suc.prems])
    show ?thesis
    proof (cases "spec_change P' PZS < tol")
      case True
      then show ?thesis
        using m' by (simp add: take_columns_ok [OF assms(1)] pzs_step_eq [OF Suc.prems] Inr d)
    next
      case False
      from Suc.IH [OF m', of "Suc it"] False show ?thesis
        by (simp add: take_columns_ok [OF assms(1)] pzs_step_eq [OF Suc.prems] Inr d
            split: sum.splits prod.splits)
    qed
  qed
qed

lemma sum_list_rows_swap:
  fixes P :: "real list list"
  assumes "mat n K P"
  shows "sum_list (map sum_list P) = (\<Sum>k\<leftarrow>[0..<K]. \<Sum>i\<leftarrow>[0..<n]. P ! i ! k)"
proof -
  have l: "length P = n" "\<And>i. i < n \<Longrightarrow> length (P ! i) = K"
    using assms by (auto simp: mat_def list_all_length)
  have "map sum_list P = map (\<lambda>i. \<Sum>k\<leftarrow>[0..<K]. P ! i ! k) [0..<n]"
  proof (rule nth_equalityI)
    show "length (map sum_list P) = length (map (\<lambda>i. \<Sum>k\<leftarrow>[0..<K]. P ! i ! k) [0..<n])"
      using l by simp
  next
    fix i assume "i < length (map sum_list P)"
    then have i: "i < n" using l by simp
    have "map ((!) (P ! i)) [0..<K] = P ! i" using l(2) [OF i] by (metis map_nth)
    then show "map sum_list P ! i = map (\<lambda>i. \<Sum>k\<leftarrow>[0..<K]. P ! i ! k) [0..<n] ! i"
      using i l by simp
  qed
  then have "sum_list (map sum_list P) = (\<Sum>i\<in>{0..<n}. \<Sum>k\<in>{0..<K}. P ! i ! k)"
    by (simp add: interv_sum_list_conv_sum_set_nat)
  also have "\<dots> = (\<Sum>k\<in>{0..<K}. \<Sum>i\<in>{0..<n}. P ! i ! k)" by (rule sum.swap)
  finally show ?thesis by (simp add: interv_sum_list_conv_sum_set_nat)
qed

lemma col_sums_spec:
  assumes "mat n K P"
  shows "col_sums P K = map (\<lambda>k. \<Sum>i\<leftarrow>[0..<n]. P ! i ! k) [0..<K]"
proof (rule nth_equalityI)
  show "length (col_sums P K) = length (map (\<lambda>k. \<Sum>i\<leftarrow>[0..<n]. P ! i ! k) [0..<K])"
    by (simp add: col_sums_def)
next
  fix k assume "k < length (col_sums P K)"
  then have k: "k < K" by (simp add: col_sums_def)
  have "length P = n" using assms by (simp add: mat_def)
  then show "col_sums P K ! k = map (\<lambda>k. \<Sum>i\<leftarrow>[0..<n]. P ! i ! k) [0..<K] ! k"
    using k by (simp add: col_sums_nth)
qed

lemma transform_single_spec:
  assumes "\<forall>w\<in>set doc. w < ncols cmps"
  shows "transform_single cmps a doc max_iter tol = spec_infer cmps a doc max_iter tol \<and>
         (\<forall>P it. pzs_loop cmps a tol doc (nat (max_iter + 1))
                    (replicate (length doc) (replicate (length cmps) 0)) 0 = Inr (P, it)
                  \<longrightarrow> it \<le> nat (max_iter + 1))"
proof -
  let ?Z = "replicate (length doc) (replicate (length cmps) (0::real))"
  have z: "mat (length doc) (length cmps) ?Z" by (simp add: mat_def list_all_length)
  note eq = pzs_loop_eq [OF assms z, of a tol "nat (max_iter + 1)" 0]
  show ?thesis
  proof (cases "pzs_loop cmps a tol doc (nat (max_iter + 1)) ?Z 0")
    case (Inl e)
    then show ?thesis using eq by (simp add: transform_single_def spec_infer_def)
  next
    case (Inr r)
    obtain P it where r: "r = (P, it)" by (cases r)
    from eq Inr r have s: "spec_iterate cmps a tol doc (nat (max_iter + 1)) ?Z = Inr P"
      and it: "it \<le> nat (max_iter + 1)" and m: "mat (length doc) (length cmps) P"
      by simp_all
    show ?thesis
      using it by (simp add: transform_single_def spec_infer_def Inr r s
          col_sums_spec [OF m] sum_list_rows_swap [OF m])
  qed
qed


text \<open>
  C7: for every sequence of word ids inside the vocabulary, \<open>_transform_single\<close> computes
  what the spec describes: starting from zeros, at most \<open>max_iter + 1\<close> updates
  \<open>PZS_new[i][k] = topic_word[k][word_i] * (mass of the other positions in topic k + alpha)\<close>
  with row normalisation, stopping early when the total absolute change is below \<open>tol\<close>,
  and the normalised column sums as the result. The two computations agree also where a
  division by zero leaves the finite numbers.
\<close>

theorem transform_single_refines:
  assumes "\<forall>w\<in>set doc. w < ncols cmps"
  shows "transform_single cmps a doc max_iter tol = spec_infer cmps a doc max_iter tol \<and>
         (\<forall>P it. pzs_loop cmps a tol doc (nat (max_iter + 1))
                    (replicate (length doc) (replicate (length cmps) 0)) 0 = Inr (P, it)
                  \<longrightarrow> it \<le> nat (max_iter + 1))"
  using assms by (rule transform_single_spec)

theorem transform_single_refines_witness:
  "list_all (\<lambda>w. w < ncols [[1/4, 3/4], [1/2, 1/2::real]]) [0, 1, 1] \<and>
   transform_single [[1/4, 3/4], [1/2, 1/2]] 1 [0, 1, 1] 2 0
     = spec_infer [[1/4, 3/4], [1/2, 1/2]] 1 [0, 1, 1] 2 0 \<and>
   spec_infer [[1/4, 3/4], [1/2, 1/2]] 1 [0, 1, 1] 2 0
     = Inr [58135835 / 112233957, 54098122 / 112233957]"
proof -
  have h: "\<forall>w\<in>set [0, 1, 1]. w < ncols [[1/4, 3/4], [1/2, 1/2::real]]"
    by (simp add: ncols_def)
  have v: "spec_infer [[1/4, 3/4], [1/2, 1/2]] 1 [0, 1, 1] 2 0
     = Inr [58135835 / 112233957, 54098122 / 112233957]"
    by code_simp
  from transform_single_refines [OF h, of 1 2 0] h v show ?thesis
    by (simp add: list_all_iff)
qed

section \<open>Rows of the inferred matrix\<close>


lemma sum_list_div: "(\<Sum>x\<leftarrow>r. x / s) = sum_list r / (s::real)"
  by (induction r) (simp_all add: add_divide_distrib)

lemma sequence_err_all_Inr:
  "\<forall>x\<in>set xs. f x = Inr (g x) \<Longrightarrow> sequence_err (map f xs) = Inr (map g xs)"
  by (induction xs) simp_all

lemma sum_list_pos_real:
  "r \<noteq> [] \<Longrightarrow> \<forall>x\<in>set r. 0 < x \<Longrightarrow> 0 < (sum_list r :: real)"
proof (induction r)
  case Nil
  then show ?case by simp
next
  case (Cons x r)
  then show ?case by (cases r) (auto intro: add_pos_pos)
qed

lemma normalize_rows_pos:
  assumes "\<forall>r\<in>set m. r \<noteq> [] \<and> (\<forall>x\<in>set r. 0 < x)"
  shows "\<exists>m'. normalize_rows m = Inr m' \<and> nonneg m' \<and> rows_one m'"
proof -
  have s: "0 < sum_list r" if "r \<in> set m" for r
    using assms that sum_list_pos_real by blast
  have "div_row r (sum_list r) = Inr (map (\<lambda>x. x / sum_list r) r)" if "r \<in> set m" for r
    using assms s [OF that] that by (simp add: div_row_def)
  then have "\<forall>r\<in>set m. div_row r (sum_list r) = Inr (map (\<lambda>x. x / sum_list r) r)"
    by blast
  from sequence_err_all_Inr [OF this]
  have e: "normalize_rows m = Inr (map (\<lambda>r. map (\<lambda>x. x / sum_list r) r) m)"
    by (simp add: normalize_rows_def)
  have "nonneg (map (\<lambda>r. map (\<lambda>x. x / sum_list r) r) m)"
    using assms s by (auto simp: nonneg_def intro!: divide_nonneg_pos less_imp_le)
  moreover have "sum_list (map (\<lambda>x. x / sum_list r) r) = 1" if "r \<in> set m" for r
    using s [OF that] by (simp add: sum_list_div)
  then have "rows_one (map (\<lambda>r. map (\<lambda>x. x / sum_list r) r) m)"
    by (simp add: rows_one_def)
  ultimately show ?thesis using e by blast
qed

lemma nonneg_nth:
  "nonneg P \<Longrightarrow> mat n K P \<Longrightarrow> j < n \<Longrightarrow> k < K \<Longrightarrow> 0 \<le> P ! j ! k"
  by (auto simp: nonneg_def mat_def list_all_length all_set_conv_all_nth)

lemma others_mass_nonneg:
  assumes "nonneg P" "mat n K P" "k < K"
  shows "0 \<le> others_mass P i k"
proof -
  have n: "length P = n" using assms(2) by (simp add: mat_def)
  have "0 \<le> x" if "x \<in> set (map (\<lambda>j. if j \<noteq> i then P ! j ! k else 0) [0..<length P])" for x
    using that nonneg_nth [OF assms(1,2) _ assms(3)] n by auto
  then show ?thesis unfolding others_mass_def by (rule sum_list_nonneg)
qed

lemma spec_update_pos:
  assumes c: "\<forall>r\<in>set cmps. \<forall>x\<in>set r. 0 < x" "rect cmps" "cmps \<noteq> []"
    and d: "\<forall>w\<in>set doc. w < ncols cmps" and a: "0 < a"
    and P: "nonneg P" "mat (length doc) (length cmps) P"
  shows "\<forall>r\<in>set (spec_update cmps a doc P). r \<noteq> [] \<and> (\<forall>x\<in>set r. 0 < x)"
proof -
  have e: "0 < cmps ! k ! (doc ! i) * (others_mass P i k + a)"
    if "i < length doc" "k < length cmps" for i k
  proof -
    have "doc ! i < length (cmps ! k)"
      using d that c(2) by (simp add: rect_def list_all_length)
    then have "0 < cmps ! k ! (doc ! i)" using c(1) that(2) by (simp add: all_set_conv_all_nth)
    moreover have "0 \<le> others_mass P i k" by (rule others_mass_nonneg [OF P that(2)])
    ultimately show ?thesis using a by (intro mult_pos_pos) simp_all
  qed
  show ?thesis
    using e c(3) by (auto simp: spec_update_def)
qed

lemma spec_iterate_pos:
  assumes c: "\<forall>r\<in>set cmps. \<forall>x\<in>set r. 0 < x" "rect cmps" "cmps \<noteq> []"
    and d: "\<forall>w\<in>set doc. w < ncols cmps" and a: "0 < a"
    and P: "nonneg P" "mat (length doc) (length cmps) P"
  shows "\<exists>P'. spec_iterate cmps a tol doc m P = Inr P' \<and> nonneg P' \<and>
           mat (length doc) (length cmps) P' \<and> (rows_one P \<or> 0 < m \<longrightarrow> rows_one P')"
  using P
proof (induction m arbitrary: P)
  case 0
  then show ?case by simp
next
  case (Suc m)
  from normalize_rows_pos [OF spec_update_pos [OF c d a Suc.prems]]
  obtain P1 where P1: "normalize_rows (spec_update cmps a doc P) = Inr P1" "nonneg P1" "rows_one P1"
    by blast
  have m1: "mat (length doc) (length cmps) P1"
    by (rule normalize_rows_mat [OF P1(1) spec_update_mat])
  show ?case
  proof (cases "spec_change P1 P < tol")
    case True
    then show ?thesis using P1 m1 by simp
  next
    case False
    from Suc.IH [OF P1(2) m1] P1(3) obtain P' where
      "spec_iterate cmps a tol doc m P1 = Inr P'" "nonneg P'"
      "mat (length doc) (length cmps) P'" "rows_one P'"
      by blast
    then show ?thesis using False P1(1) by simp
  qed
qed

lemma col_sums_total:
  fixes P :: "real list list"
  assumes "mat n K P"
  shows "sum_list (col_sums P K) = sum_list (map sum_list P)"
  by (simp add: col_sums_spec [OF assms] sum_list_rows_swap [OF assms])

lemma transform_single_stochastic:
  assumes c: "\<forall>r\<in>set cmps. \<forall>x\<in>set r. 0 < x" "rect cmps" "cmps \<noteq> []"
    and d: "\<forall>w\<in>set doc. w < ncols cmps" "doc \<noteq> []" and a: "0 < a" and mi: "0 \<le> max_iter"
  shows "\<exists>theta. transform_single cmps a doc max_iter tol = Inr theta \<and>
           length theta = length cmps \<and> (\<forall>x\<in>set theta. 0 \<le> x) \<and> sum_list theta = 1"
proof -
  let ?Z = "replicate (length doc) (replicate (length cmps) (0::real))"
  have z: "mat (length doc) (length cmps) ?Z" "nonneg ?Z"
    by (simp_all add: mat_def nonneg_def list_all_length)
  have m: "0 < nat (max_iter + 1)" using mi by simp
  from spec_iterate_pos [OF c d(1) a z(2) z(1), of tol "nat (max_iter + 1)"] m
  obtain P where P: "spec_iterate cmps a tol doc (nat (max_iter + 1)) ?Z = Inr P" "nonneg P"
      "mat (length doc) (length cmps) P" "rows_one P"
    by blast
  have t: "sum_list (map sum_list P) = real (length doc)"
  proof -
    have "map sum_list P = map (\<lambda>_. 1) P" using P(4) by (simp add: rows_one_def)
    then have "sum_list (map sum_list P) = (\<Sum>r\<leftarrow>P. 1)" by (rule arg_cong)
    also have "\<dots> = real (length P)" by (simp add: sum_list_triv)
    finally show ?thesis using P(3) by (simp add: mat_def)
  qed
  have tp: "0 < real (length doc)" using d(2) by simp
  have cs: "\<forall>x\<in>set (col_sums P (length cmps)). 0 \<le> x"
  proof -
    have "0 \<le> (\<Sum>row\<leftarrow>P. row ! k)" if "k < length cmps" for k
    proof (rule sum_list_nonneg)
      fix x assume "x \<in> set (map (\<lambda>row. row ! k) P)"
      then obtain j where "j < length P" "x = P ! j ! k" by (auto simp: in_set_conv_nth)
      then show "0 \<le> x" using nonneg_nth [OF P(2,3) _ that] P(3) by (simp add: mat_def)
    qed
    then show ?thesis by (auto simp: col_sums_def)
  qed
  have e: "spec_infer cmps a doc max_iter tol
           = Inr (map (\<lambda>x. x / real (length doc)) (col_sums P (length cmps)))"
  proof -
    have f1: "map (\<lambda>k. \<Sum>i\<leftarrow>[0..<length doc]. P ! i ! k) [0..<length cmps]
              = col_sums P (length cmps)"
      using col_sums_spec [OF P(3)] by simp
    have f2: "sum_list (col_sums P (length cmps)) = real (length doc)"
      using col_sums_total [OF P(3)] t by simp
    have f3: "col_sums P (length cmps) \<noteq> []" using c(3) by (simp add: col_sums_def)
    have "spec_infer cmps a doc max_iter tol
          = div_row (col_sums P (length cmps)) (real (length doc))"
      by (simp only: spec_infer_def P(1) bind_err_Inr f1 f2)
    then show ?thesis using f3 tp by (simp add: div_row_def)
  qed
  have "sum_list (map (\<lambda>x. x / real (length doc)) (col_sums P (length cmps))) = 1"
    using tp by (simp add: sum_list_div col_sums_total [OF P(3)] t)
  moreover have "\<forall>x\<in>set (map (\<lambda>x. x / real (length doc)) (col_sums P (length cmps))). 0 \<le> x"
    using cs tp by auto
  moreover have "length (map (\<lambda>x. x / real (length doc)) (col_sums P (length cmps))) = length cmps"
    by (simp add: col_sums_def)
  ultimately show ?thesis
    using transform_single_spec [OF d(1), of a max_iter tol] e by metis
qed


lemma doc_words_subset: "set (doc_words ws ds d) \<subseteq> set ws"
  by (auto simp: doc_words_def dest: set_zip_leftD)

lemma doc_words_nonempty:
  assumes "length ws = length ds" "d \<in> set ds"
  shows "doc_words ws ds d \<noteq> []"
proof -
  from assms(2) obtain i where i: "i < length ds" "ds ! i = d" by (auto simp: in_set_conv_nth)
  then have "(ws ! i, d) \<in> set (zip ws ds)"
    using assms(1) by (auto simp: set_zip)
  then have "filter (\<lambda>(w, d'). d' = d) (zip ws ds) \<noteq> []"
    by (auto simp: filter_empty_conv)
  then show ?thesis by (simp add: doc_words_def)
qed

lemma transform_docs_rows:
  assumes c: "\<forall>r\<in>set cmps. \<forall>x\<in>set r. 0 < x" "rect cmps" "cmps \<noteq> []"
    and w: "\<forall>w\<in>set ws. w < ncols cmps" "length ws = length ds"
    and a: "0 < a" and mi: "0 \<le> max_iter"
    and dl: "\<forall>d\<in>set dl. d \<in> set ds \<and> d < length G"
  shows "\<exists>R. transform_docs cmps a max_iter tol ws ds dl G = Inr R \<and> length R = length G \<and>
           (\<forall>d < length G. if d \<in> set dl then row_stochastic (length cmps) (R ! d)
                            else R ! d = G ! d)"
  using dl
proof (induction dl arbitrary: G)
  case Nil
  then show ?case by simp
next
  case (Cons d rest)
  have d: "d \<in> set ds" "d < length G" using Cons.prems by simp_all
  have wd: "\<forall>w\<in>set (doc_words ws ds d). w < ncols cmps"
    using w(1) doc_words_subset [of ws ds d] by blast
  from transform_single_stochastic [OF c wd doc_words_nonempty [OF w(2) d(1)] a mi, of tol]
  obtain theta where th: "transform_single cmps a (doc_words ws ds d) max_iter tol = Inr theta"
    "row_stochastic (length cmps) theta"
    by (auto simp: row_stochastic_def)
  have "\<forall>d'\<in>set rest. d' \<in> set ds \<and> d' < length (G[d := theta])"
    using Cons.prems by simp
  from Cons.IH [OF this] obtain R where
    R: "transform_docs cmps a max_iter tol ws ds rest (G[d := theta]) = Inr R"
      "length R = length G"
      "\<forall>d' < length G. if d' \<in> set rest then row_stochastic (length cmps) (R ! d')
                          else R ! d' = G[d := theta] ! d'"
    by auto
  have "transform_docs cmps a max_iter tol ws ds (d # rest) G = Inr R"
    using th(1) d(2) R(1) by simp
  moreover have "\<forall>d' < length G. if d' \<in> set (d # rest) then row_stochastic (length cmps) (R ! d')
                          else R ! d' = G ! d'"
  proof (intro allI impI)
    fix d' assume d': "d' < length G"
    show "if d' \<in> set (d # rest) then row_stochastic (length cmps) (R ! d') else R ! d' = G ! d'"
    proof (cases "d' \<in> set rest")
      case True
      then show ?thesis using R(3) d' by simp
    next
      case False
      then have e: "R ! d' = G[d := theta] ! d'" using R(3) d' by simp
      show ?thesis
      proof (cases "d' = d")
        case True
        then show ?thesis using e th(2) d(2) by simp
      next
        case False
        then show ?thesis using e \<open>d' \<notin> set rest\<close> by simp
      qed
    qed
  qed
  ultimately show ?case using R(2) by blast
qed

lemma set_DS: "set (snd (matrix_to_lists X)) = {d. d < length X \<and> 0 < sum_list (X ! d)}"
proof -
  have "set (replicate n d) = (if 0 < n then {d} else {})" for n and d :: nat
    by (cases n) auto
  then show ?thesis by (auto simp: matrix_to_lists_def split: if_splits)
qed

text \<open>
  What \<open>transform\<close> returns for a fitted model (positive \<open>components_\<close>, positive
  \<open>alpha\<close>) and \<open>max_iter \<ge> 0\<close>: a matrix with one row per document, in which the row
  of every document that has a token has non-negative entries that sum to one, and the row
  of a document without tokens is what the memory held before the call.
\<close>

lemma transform_rows:
  assumes X: "rect X" "ncols X \<le> ncols cmps" "length garbage = length X"
    and c: "\<forall>r\<in>set cmps. \<forall>x\<in>set r. 0 < x" "rect cmps" "cmps \<noteq> []"
    and a: "0 < a" and mi: "0 \<le> max_iter"
  shows "\<exists>R. transform cmps a X max_iter tol garbage = Inr R \<and> length R = length X \<and>
           (\<forall>d < length X. if 0 < sum_list (X ! d) then row_stochastic (length cmps) (R ! d)
                            else R ! d = garbage ! d)"
proof -
  obtain ws ds where m: "matrix_to_lists X = (ws, ds)" by (cases "matrix_to_lists X")
  have l: "length ws = length ds" using length_WS [of X] length_DS [of X] m by simp
  have wb: "\<forall>w\<in>set ws. w < ncols cmps" using WS_bound [OF X(1)] m X(2) by fastforce
  have sd: "set ds = {d. d < length X \<and> 0 < sum_list (X ! d)}" using set_DS [of X] m by simp
  have "\<forall>d\<in>set (sort (remdups ds)). d \<in> set ds \<and> d < length garbage"
    using sd X(3) by simp
  from transform_docs_rows [OF c wb l a mi this, of tol] obtain R where
    R: "transform_docs cmps a max_iter tol ws ds (sort (remdups ds)) garbage = Inr R"
      "length R = length garbage"
      "\<forall>d < length garbage. if d \<in> set (sort (remdups ds)) then row_stochastic (length cmps) (R ! d)
                          else R ! d = garbage ! d"
    by blast
  have "transform cmps a X max_iter tol garbage = Inr R" using R(1) by (simp add: transform_def m)
  moreover have "\<forall>d < length X. if 0 < sum_list (X ! d) then row_stochastic (length cmps) (R ! d)
                            else R ! d = garbage ! d"
    using R(3) X(3) sd by simp
  ultimately show ?thesis using R(2) X(3) by auto
qed

lemma transform_rows_example:
  "rect [[0, 0], [1, 2::nat]] \<and> ncols [[0, 0], [1, 2::nat]] \<le> ncols [[1/4, 3/4], [1/2, 1/2::real]] \<and>
   (\<exists>R. transform [[1/4, 3/4], [1/2, 1/2]] 1 [[0, 0], [1, 2]] 20 (1 / 10 ^ 16) [[7, 7], [7, 7]] = Inr R \<and>
      row_stochastic 2 (R ! 1) \<and> R ! 0 = [7, 7])"
proof -
  have X: "rect [[0, 0], [1, 2::nat]]"
    "ncols [[0, 0], [1, 2::nat]] \<le> ncols [[1/4, 3/4], [1/2, 1/2::real]]"
    "length [[7, 7], [7, 7::real]] = length [[0, 0], [1, 2::nat]]"
    by (simp_all add: rect_def ncols_def)
  have c: "\<forall>r\<in>set [[1/4, 3/4], [1/2, 1/2::real]]. \<forall>x\<in>set r. 0 < x"
    "rect [[1/4, 3/4], [1/2, 1/2::real]]" "[[1/4, 3/4], [1/2, 1/2::real]] \<noteq> []"
    by (simp_all add: rect_def ncols_def)
  from transform_rows [OF X c, of 1 20 "1 / 10 ^ 16"] obtain R where
    "transform [[1/4, 3/4], [1/2, 1/2]] 1 [[0, 0], [1, 2]] 20 (1 / 10 ^ 16) [[7, 7], [7, 7]] = Inr R"
    "\<forall>d < length [[0, 0], [1, 2::nat]].
       if 0 < sum_list ([[0, 0], [1, 2::nat]] ! d)
       then row_stochastic (length [[1/4, 3/4], [1/2, 1/2::real]]) (R ! d)
       else R ! d = [[7, 7], [7, 7]] ! d"
    by auto
  then have "transform [[1/4, 3/4], [1/2, 1/2]] 1 [[0, 0], [1, 2]] 20 (1 / 10 ^ 16) [[7, 7], [7, 7]] = Inr R \<and>
      row_stochastic 2 (R ! 1) \<and> R ! 0 = [7, 7]"
    by (simp add: All_less_Suc numeral_2_eq_2)
  then show ?thesis using X by blast
qed

text \<open>
  C10 does not hold of the code: the row of a document without tokens is not a
  distribution, it is never written. The loop of \<open>transform\<close> runs over
  \<open>np.unique(DS)\<close>, the documents that have a token, so that the row of an all-zero row
  of \<open>X\<close> keeps what \<open>np.empty\<close> left there. For the model with the one topic
  \<open>[1/2, 1/2]\<close> and \<open>alpha = 1\<close>, and the matrix \<open>[[1, 0], [0, 0]]\<close>, the result is
  \<open>[[1], g1]\<close>, whatever rows \<open>g0\<close> and \<open>g1\<close> the memory held: the second row sums to
  one only if the memory happened to hold a one.
\<close>

theorem transform_empty_document_row:
  "transform [[1/2, 1/2]] 1 [[1, 0], [0, 0]] 20 (1 / 10 ^ 16) [g0, g1] = Inr [[1], g1]"
proof -
  have m: "matrix_to_lists [[1, 0], [0, 0]] = ([0], [0])" by code_simp
  have sr: "sort (remdups [0::nat]) = [0]" by simp
  have d: "doc_words [0] [0] 0 = [0]" by code_simp
  have t: "transform_single [[1/2, 1/2]] 1 [0] 20 (1 / 10 ^ 16) = Inr [1]" by code_simp
  have "transform [[1/2, 1/2]] 1 [[1, 0], [0, 0]] 20 (1 / 10 ^ 16) [g0, g1]
          = (if 0 < length [g0, g1] then Inr ([g0, g1][0 := [1]]) else Inl IndexError)"
    by (simp only: transform_def m prod.case Let_def sr transform_docs.simps d t bind_err_Inr)
  then show ?thesis by simp
qed

section \<open>Fitting the worked example\<close>


lemma demo_initialize: "initialize demo_config demo_X = Inr demo_s0"
  by code_simp

lemma demo_pass: "sample_topics demo_config [1/2] demo_s0 = Inr demo_s0"
  by code_simp

lemma demo_smoothed: "smoothed_rows 1 (nzw demo_s0) = Inr demo_components"
  by code_simp

lemma demo_top12: "top12 (demo_components ! 0) = Inr [0, 1, 2, 3, 4, 5, 6, 7, 8, 9, 10, 11]"
  by code_simp

lemma demo_reweight:
  "reweight [1, 1, 1, 1, 1, 1, 1, 1, 1, 1, 1, - 1] [0, 1, 2, 3, 4, 5, 6, 7, 8, 9, 10, 11]
     (demo_components ! 0) = Inr (demo_adjusted ! 0)"
  by code_simp


lemma replicate_100: "replicate 100 x = x # replicate 99 x"
proof -
  have "replicate (Suc 99) x = x # replicate 99 x" by (rule replicate_Suc)
  then show ?thesis by simp
qed

lemma vadd_head: "vadd (x # replicate n 0) (y # replicate n 0) = (x + y) # replicate n 0"
  by (simp add: vadd_def zip_replicate)

lemma dot_head: "dot (x # replicate n 0) (y # replicate n 0) = x * y"
  by (simp add: dot_def zip_replicate sum_list_replicate)

lemma cosine_head:
  assumes "x \<noteq> 0" "y \<noteq> 0"
  shows "cosine (x # replicate n 0) (y # replicate n 0) = Inr (1 - x * y / (\<bar>x\<bar> * \<bar>y\<bar>))"
proof -
  have "sqrt (x * x * (y * y)) = \<bar>x\<bar> * \<bar>y\<bar>"
    by (simp add: real_sqrt_mult)
  then show ?thesis using assms by (simp add: cosine_def dot_head)
qed

lemma demo_lookup:
  "w < 12 \<Longrightarrow> lookup demo_config w = Inr ((if w = 11 then - 1 else 1) # replicate 99 0)"
  by (simp add: lookup_def demo_config_def)

lemma upt_12: "[0..<12] = [0, 1, 2, 3, 4, 5, 6, 7, 8, 9, 10, 11::nat]"
  by code_simp

lemma demo_relevances:
  "relevances demo_config [0, 1, 2, 3, 4, 5, 6, 7, 8, 9, 10, 11]
     = Inr [1, 1, 1, 1, 1, 1, 1, 1, 1, 1, 1, - 1]"
proof -
  let ?p = "1 # replicate 99 (0::real)" and ?n = "- 1 # replicate 99 (0::real)"
  have vs: "sequence_err (map (\<lambda>i. bind_err (get1 [0, 1, 2, 3, 4, 5, 6, 7, 8, 9, 10, 11] i)
              (lookup demo_config)) [0..<12])
            = Inr [?p, ?p, ?p, ?p, ?p, ?p, ?p, ?p, ?p, ?p, ?p, ?n]"
    by (simp add: upt_12 get1_def demo_lookup)
  have tot: "map (\<lambda>x. x / 12)
               (foldl vadd (replicate 100 0) [?p, ?p, ?p, ?p, ?p, ?p, ?p, ?p, ?p, ?p, ?p, ?n])
             = (5/6) # replicate 99 0"
    by (simp add: replicate_100 vadd_head)
  have c1: "cosine ?p ((5/6) # replicate 99 0) = Inr 0"
    using cosine_head [of 1 "5/6" 99] by simp
  have c2: "cosine ?n ((5/6) # replicate 99 0) = Inr 2"
    using cosine_head [of "- 1" "5/6" 99] by simp
  show ?thesis
    unfolding relevances_def vs bind_err_Inr Let_def tot
    by (simp add: c1 c2)
qed


lemma demo_occurs: "a < 12 \<Longrightarrow> occurs demo_s0 a 0 0"
proof -
  assume a: "a < 12"
  have "list_all (\<lambda>a. a \<in> set (WS demo_s0)) [0..<12]" by code_simp
  then have "a \<in> set (WS demo_s0)" using a by (simp add: list_all_iff)
  then obtain i where i: "i < length (WS demo_s0)" "WS demo_s0 ! i = a"
    by (auto simp: in_set_conv_nth)
  have l: "length (WS demo_s0) = 78" by code_simp
  have "DS demo_s0 ! i = 0" "ZS demo_s0 ! i = 0"
    using i(1) l by (simp_all add: demo_s0_def)
  then show ?thesis using i by (auto simp: occurs_def)
qed

lemma demo_ck:
  "\<exists>v. ck_stage [[0, 1, 2, 3, 4, 5, 6, 7, 8, 9, 10, 11]] 1 1 demo_s0 = Inr [v]"
proof -
  have t: "tokens_ok demo_s0 1 1" by code_simp
  have w: "length [[0, 1, 2, 3, 4, 5, 6, 7, 8, 9, 10, 11::nat]] = 1"
    "\<forall>r\<in>set [[0, 1, 2, 3, 4, 5, 6, 7, 8, 9, 10, 11::nat]]. length r = 12 \<and> distinct r"
    by simp_all
  have m: "marginal_count demo_s0 1 0 a \<noteq> 0" if "a < 12" for a
    using demo_occurs [OF that] by (simp add: marginal_count_def)
  have nth: "[0, 1, 2, 3, 4, 5, 6, 7, 8, 9, 10, 11] ! a = a" if "a < 12" for a :: nat
  proof -
    have "[0..<12] ! a = a" using that by simp
    then show ?thesis by (simp only: upt_12)
  qed
  have "\<not> (\<exists>z<1. \<exists>(a, b)\<in>set (pairs 0).
           marginal_count demo_s0 1 z ([[0, 1, 2, 3, 4, 5, 6, 7, 8, 9, 10, 11]] ! z ! a) = 0)"
    using m nth by (auto simp: set_pairs_0)
  with ck_stage_char [OF t w] show ?thesis by simp
qed

lemma count_tokens_cong:
  "WS s' = WS s \<Longrightarrow> DS s' = DS s \<Longrightarrow> ZS s' = ZS s \<Longrightarrow>
     count_tokens word_id D s' is c = count_tokens word_id D s is c"
  by (induction "is" arbitrary: c) (simp_all add: Let_def)

lemma ck_stage_cong:
  "WS s' = WS s \<Longrightarrow> DS s' = DS s \<Longrightarrow> ZS s' = ZS s \<Longrightarrow>
     ck_stage word_id D K s' = ck_stage word_id D K s"
proof -
  assume a: "WS s' = WS s" "DS s' = DS s" "ZS s' = ZS s"
  have "count_tokens word_id D s' [0..<length (WS s)] (\<lambda>_ _ _. 0)
        = count_tokens word_id D s [0..<length (WS s)] (\<lambda>_ _ _. 0)"
    by (rule count_tokens_cong [OF a])
  then show ?thesis by (simp add: ck_stage_def a(1))
qed

lemma demo_adjust: "adjust_step demo_config demo_X demo_s0 = Inr demo_s1"
proof -
  obtain v where v: "ck_stage [[0, 1, 2, 3, 4, 5, 6, 7, 8, 9, 10, 11]] 1 1 demo_s0 = Inr [v]"
    using demo_ck by blast
  let ?s = "demo_s0\<lparr>heap := heap demo_s0 @ [demo_components], components := length (heap demo_s0),
              topic_word_new := length (heap demo_s0)\<rparr>"
  have ck: "ck_stage [[0, 1, 2, 3, 4, 5, 6, 7, 8, 9, 10, 11]] 1 1 ?s = Inr [v]"
  proof -
    have "ck_stage [[0, 1, 2, 3, 4, 5, 6, 7, 8, 9, 10, 11]] 1 1 ?s
          = ck_stage [[0, 1, 2, 3, 4, 5, 6, 7, 8, 9, 10, 11]] 1 1 demo_s0"
      by (rule ck_stage_cong) simp_all
    then show ?thesis using v by simp
  qed
  have e: "eta demo_config = 1" "nat (n_topics demo_config) = 1" "length demo_X = 1"
    by (simp_all add: demo_config_def demo_X_def)
  have h: "heap demo_s0 = [demo_init]" by (simp add: demo_s0_def)
  have sel: "select_adjust [v] = Inr 0" by (simp add: select_adjust_def)
  have dc: "demo_components \<noteq> []" "length demo_components = 1"
    "demo_components[0 := demo_adjusted ! 0] = demo_adjusted"
    by (simp_all add: demo_components_def demo_adjusted_def)
  show ?thesis
    unfolding adjust_step_def e demo_smoothed bind_err_Inr Let_def
    by (simp add: h get1_def demo_top12 [simplified] dc ck [unfolded h, simplified] sel
        demo_relevances [simplified] demo_reweight [simplified] demo_s1_def)
qed


lemma demo_fit_iter:
  "fit_iter demo_config demo_X demo_rands [0..<nat (n_iter demo_config)] demo_s0 = Inr demo_s1"
proof -
  have "[0..<nat (n_iter demo_config)] = [0]" by (simp add: demo_config_def)
  moreover have "refresh demo_config \<noteq> 0" by (simp add: demo_config_def)
  ultimately show ?thesis
    by (simp add: demo_rands_def demo_pass demo_adjust)
qed

lemma demo_perplexity:
  "\<exists>p. perplexity (n_topics demo_config) [[1]] demo_blend demo_X = Inr p"
  by (simp add: perplexity_def ncols_def total_def demo_X_def demo_blend_def demo_config_def
      upt_12 get2_def py_log_def)

lemma demo_fit: "fit demo_config demo_X demo_rands = Inr demo_fitted"
proof -
  have sm: "smoothed_rows (eta demo_config) (nzw demo_s1) = Inr demo_components"
    using demo_smoothed by (simp add: demo_s1_def demo_config_def)
  have dt: "normalize_rows (map (map (\<lambda>n. real_of_int n + alpha demo_config)) (ndz demo_s1))
            = Inr [[1]]"
    by code_simp
  have bl: "blend (lamda demo_config) demo_components (heap demo_s1 ! topic_word_new demo_s1)
            = demo_blend"
    by code_simp
  obtain p where p: "perplexity (n_topics demo_config) [[1]] demo_blend demo_X = Inr p"
    using demo_perplexity by blast
  have f: "\<lparr>nzw = nzw demo_s1, ndz = ndz demo_s1, nz = nz demo_s1, WS = [], DS = [], ZS = [],
            heap = heap demo_s1 @ [demo_components, [[1]], demo_blend],
            components = length (heap demo_s1), topic_word_new = topic_word_new demo_s1,
            topic_word = length (heap demo_s1) + 2, doc_topic = length (heap demo_s1) + 1\<rparr>
          = demo_fitted"
    by (simp add: demo_s1_def demo_s0_def demo_fitted_def)
  show ?thesis
    unfolding fit_def demo_initialize demo_fit_iter sm dt bind_err_Inr Let_def bl p f ..
qed


text \<open>
  C2 does not hold of the code. In the worked example the relevances of the top words are 1
  for the words 0 to 10 and -1 for word 11, and the selected positions are 11 and, four
  times, 0. Word 11 has relevance \<open>r \<le> 0\<close> and probability \<open>2/90\<close>: its entry is set to
  zero, but the pool receives 0, not \<open>2/90\<close>, because the addition reads the entry after it
  was zeroed. The same order of statements in the branch \<open>r > 0\<close> gives the pool
  \<open>p * r * (1 - r)\<close> instead of \<open>p * (1 - r)\<close>: for \<open>p = 13/90\<close> and \<open>r = 1/2\<close> the
  entry becomes \<open>13/180\<close> and the pool \<open>13/360\<close>.
\<close>

theorem penalise_pool_demo:
  "relevances demo_config [0, 1, 2, 3, 4, 5, 6, 7, 8, 9, 10, 11]
     = Inr [1, 1, 1, 1, 1, 1, 1, 1, 1, 1, 1, - 1] \<and>
   min_index [1, 1, 1, 1, 1, 1, 1, 1, 1, 1, 1, - 1] = [11, 0, 0, 0, 0] \<and>
   demo_components ! 0 ! 11 = 2 / 90 \<and>
   penalise [1, 1, 1, 1, 1, 1, 1, 1, 1, 1, 1, - 1] [0, 1, 2, 3, 4, 5, 6, 7, 8, 9, 10, 11]
     [11, 0, 0, 0, 0] (demo_components ! 0, 0) = Inr (demo_adjusted ! 0, 0) \<and>
   demo_components ! 0 ! 0 = 13 / 90 \<and>
   penalise [1/2, 1, 1, 1, 1, 1, 1, 1, 1, 1, 1, 1] [0, 1, 2, 3, 4, 5, 6, 7, 8, 9, 10, 11]
     [0] (demo_components ! 0, 0) = Inr ((demo_components ! 0)[0 := 13 / 180], 13 / 360)"
proof -
  have "min_index [1, 1, 1, 1, 1, 1, 1, 1, 1, 1, 1, - 1] = [11, 0, 0, 0, 0]" by code_simp
  moreover have "demo_components ! 0 ! 11 = 2 / 90" "demo_components ! 0 ! 0 = 13 / 90"
    by (simp_all add: demo_components_def)
  moreover have "penalise [1, 1, 1, 1, 1, 1, 1, 1, 1, 1, 1, - 1]
      [0, 1, 2, 3, 4, 5, 6, 7, 8, 9, 10, 11] [11, 0, 0, 0, 0] (demo_components ! 0, 0)
      = Inr (demo_adjusted ! 0, 0)"
    by code_simp
  moreover have "penalise [1/2, 1, 1, 1, 1, 1, 1, 1, 1, 1, 1, 1]
      [0, 1, 2, 3, 4, 5, 6, 7, 8, 9, 10, 11] [0] (demo_components ! 0, 0)
      = Inr ((demo_components ! 0)[0 := 13 / 180], 13 / 360)"
    by code_simp
  ultimately show ?thesis using demo_relevances by simp
qed

lemma add_token_refs:
  fixes s :: lda
  assumes "add_token d w z v s = Inr s'"
  shows "heap s' = heap s \<and> components s' = components s \<and> topic_word_new s' = topic_word_new s"
  using assms by (auto simp: add_token_def bind_err_def split: sum.splits)

lemma sample_token_refs:
  fixes s :: lda
  assumes "sample_token c twa rands i s = Inr s'"
  shows "heap s' = heap s \<and> components s' = components s \<and> topic_word_new s' = topic_word_new s"
proof -
  from assms obtain s1 k where
    s1: "add_token (DS s ! i) (WS s ! i) (ZS s ! i) (- 1) s = Inr s1"
    and s': "add_token (DS s ! i) (WS s ! i) k 1 (s1\<lparr>ZS := (ZS s1)[i := k]\<rparr>) = Inr s'"
    by (auto simp: sample_token_def Let_def bind_err_def split: if_splits sum.splits)
  show ?thesis using add_token_refs [OF s1] add_token_refs [OF s'] by simp
qed

lemma sample_pass_refs:
  fixes s :: lda
  assumes "sample_pass c twa rands is s = Inr s'"
  shows "heap s' = heap s \<and> components s' = components s \<and> topic_word_new s' = topic_word_new s"
  using assms
proof (induction "is" arbitrary: s)
  case Nil
  then show ?case by simp
next
  case (Cons i "is")
  from Cons.prems obtain s1 where
    s1: "sample_token c twa rands i s = Inr s1" "sample_pass c twa rands is s1 = Inr s'"
    by (auto simp: bind_err_def split: sum.splits)
  show ?case using sample_token_refs [OF s1(1)] Cons.IH [OF s1(2)] by simp
qed

lemma init_tokens_refs:
  fixes s :: lda
  assumes "init_tokens K is s = Inr s'"
  shows "heap s' = heap s \<and> components s' = components s \<and> topic_word_new s' = topic_word_new s"
  using assms
proof (induction "is" arbitrary: s)
  case Nil
  then show ?case by simp
next
  case (Cons i "is")
  from Cons.prems obtain s1 where
    s1: "add_token (DS s ! i) (WS s ! i) (nat (int i mod K)) 1
           (s\<lparr>ZS := (ZS s)[i := nat (int i mod K)]\<rparr>) = Inr s1"
      "init_tokens K is s1 = Inr s'"
    by (auto simp: Let_def bind_err_def split: if_splits sum.splits)
  show ?case using add_token_refs [OF s1(1)] Cons.IH [OF s1(2)] by simp
qed

lemma initialize_refs:
  assumes "initialize c X = Inr s"
  shows "components s = topic_word_new s \<and> topic_word_new s < length (heap s)"
proof -
  obtain ws ds where m: "matrix_to_lists X = (ws, ds)" by (cases "matrix_to_lists X")
  from assms obtain cmps where
    "init_tokens (n_topics c) [0..<total X]
       \<lparr>nzw = replicate (nat (n_topics c)) (replicate (ncols X) 0),
        ndz = replicate (length X) (replicate (nat (n_topics c)) 0),
        nz = replicate (nat (n_topics c)) 0, WS = ws, DS = ds, ZS = replicate (length ws) 0,
        heap = [cmps], components = 0, topic_word_new = 0\<rparr> = Inr s"
    by (auto simp: initialize_def Let_def m bind_err_def split: if_splits sum.splits)
  from init_tokens_refs [OF this] show ?thesis by simp
qed

lemma adjust_step_refs:
  assumes "adjust_step c X s = Inr s'"
  shows "components s' = topic_word_new s' \<and> topic_word_new s' = length (heap s) \<and>
         length (heap s') = Suc (length (heap s))"
  using assms
  by (auto simp: adjust_step_def Let_def bind_err_def split: sum.splits)


lemma reach_refs:
  assumes "reach c X s"
  shows "components s = topic_word_new s \<and> topic_word_new s < length (heap s)"
  using assms
proof (induction rule: reach.induct)
  case (reach_init s)
  then show ?case by (rule initialize_refs)
next
  case (reach_pass s rands s')
  from sample_pass_refs [OF reach_pass(2) [unfolded sample_topics_def]] reach_pass(3)
  show ?case by simp
next
  case (reach_adjust s s')
  from adjust_step_refs [OF reach_adjust(2)] show ?case by simp
qed

text \<open>
  C9, as the code has it: after \<open>_initialize\<close> and after every adjustment
  \<open>components_\<close> and \<open>topic_word_new\<close> refer to one and the same array (the adjustment
  allocates it anew from the counts and then rescales entries in it), so that the mutations
  of the adjustment are mutations of \<open>components_\<close>. At the end of \<open>_fit\<close>
  \<open>components_\<close> is a new array, the smoothed estimate of the final counts, different
  from the one \<open>topic_word_new\<close> refers to, and \<open>topic_word_\<close> is the blend of the two.
\<close>

theorem components_alias:
  "(initialize c X = Inr s \<longrightarrow> components s = topic_word_new s) \<and>
   (adjust_step c X s = Inr s' \<longrightarrow>
      components s' = topic_word_new s' \<and> components s' = length (heap s)) \<and>
   (fit c X rands = Inr f \<longrightarrow>
      smoothed_rows (eta c) (nzw f) = Inr (heap f ! components f) \<and>
      components f \<noteq> topic_word_new f \<and>
      heap f ! topic_word f
        = blend (lamda c) (heap f ! components f) (heap f ! topic_word_new f))"
proof -
  have a: "components s = topic_word_new s" if "initialize c X = Inr s"
    using initialize_refs [OF that] by simp
  have b: "components s' = topic_word_new s' \<and> components s' = length (heap s)"
    if "adjust_step c X s = Inr s'"
    using adjust_step_refs [OF that] by simp
  have c: "smoothed_rows (eta c) (nzw f) = Inr (heap f ! components f) \<and>
      components f \<noteq> topic_word_new f \<and>
      heap f ! topic_word f
        = blend (lamda c) (heap f ! components f) (heap f ! topic_word_new f)"
    if f: "fit c X rands = Inr f"
  proof -
    from f obtain s0 t cmps dt where
      s0: "initialize c X = Inr s0"
      and t: "fit_iter c X rands [0..<nat (n_iter c)] s0 = Inr t"
      and cm: "smoothed_rows (eta c) (nzw t) = Inr cmps"
      and fe: "f = \<lparr>nzw = nzw t, ndz = ndz t, nz = nz t, WS = [], DS = [], ZS = [],
               heap = heap t @ [cmps, dt, blend (lamda c) cmps (heap t ! topic_word_new t)],
               components = length (heap t), topic_word_new = topic_word_new t,
               topic_word = length (heap t) + 2, doc_topic = length (heap t) + 1\<rparr>"
      by (auto simp: fit_def Let_def bind_err_def split: sum.splits)
    have "reach c X t" by (rule fit_iter_reach [OF reach_init [OF s0] t])
    from reach_refs [OF this] have r: "topic_word_new t < length (heap t)" by simp
    show ?thesis using cm r by (simp add: fe nth_append)
  qed
  show ?thesis using a b c by blast
qed

theorem components_alias_witness:
  "initialize demo_config demo_X = Inr demo_s0 \<and>
   adjust_step demo_config demo_X demo_s0 = Inr demo_s1 \<and>
   fit demo_config demo_X demo_rands = Inr demo_fitted \<and>
   components demo_s0 = topic_word_new demo_s0 \<and>
   components demo_s1 = topic_word_new demo_s1 \<and>
   components demo_fitted \<noteq> topic_word_new demo_fitted \<and>
   heap demo_fitted ! topic_word demo_fitted
     = blend (lamda demo_config) (heap demo_fitted ! components demo_fitted)
         (heap demo_fitted ! topic_word_new demo_fitted)"
  using components_alias [of demo_config demo_X demo_s0 demo_s1 demo_rands demo_fitted]
    demo_initialize demo_adjust demo_fit
  by simp

text \<open>
  The claim as stated fails: in the worked example the adjustment after the first sampling
  pass leaves \<open>components_\<close> referring to the adjusted array, which differs from the
  estimate derived from the counts.
\<close>

theorem adjust_changes_components_counterexample:
  "initialize demo_config demo_X = Inr demo_s0 \<and>
   sample_topics demo_config (demo_rands 0) demo_s0 = Inr demo_s0 \<and>
   adjust_step demo_config demo_X demo_s0 = Inr demo_s1 \<and>
   smoothed_rows (eta demo_config) (nzw demo_s1) = Inr demo_components \<and>
   heap demo_s1 ! components demo_s1 = demo_adjusted \<and>
   demo_adjusted \<noteq> demo_components"
proof -
  have "smoothed_rows (eta demo_config) (nzw demo_s1) = Inr demo_components"
    using demo_smoothed by (simp add: demo_s1_def demo_config_def)
  moreover have "heap demo_s1 ! components demo_s1 = demo_adjusted"
    by (simp add: demo_s1_def)
  moreover have "demo_adjusted \<noteq> demo_components"
    by (simp add: demo_adjusted_def demo_components_def)
  ultimately show ?thesis
    using demo_initialize demo_pass demo_adjust by (simp add: demo_rands_def)
qed

section \<open>Rows of the fitted topic-word matrix\<close>

lemma normalize_rows_sum:
  assumes "normalize_rows m = Inr m'" "i < length m" "m ! i \<noteq> []"
  shows "sum_list (m' ! i) = 1"
proof -
  from sequence_err_nth [OF assms(1) [unfolded normalize_rows_def]] assms(2)
  have "div_row (m ! i) (sum_list (m ! i)) = Inr (m' ! i)" by simp
  then have "sum_list (m ! i) \<noteq> 0" "m' ! i = map (\<lambda>x. x / sum_list (m ! i)) (m ! i)"
    using assms(3) by (auto simp: div_row_def split: if_splits)
  then show ?thesis by (simp add: sum_list_div)
qed

lemma smoothed_rows_mat:
  assumes "smoothed_rows e m = Inr m'" "mat K V m"
  shows "mat K V m'"
proof -
  have "mat K V (map (map (\<lambda>n. real_of_int n + e)) m)"
    using assms(2) by (simp add: mat_def list_all_length)
  then show ?thesis
    using assms(1) normalize_rows_mat unfolding smoothed_rows_def by blast
qed

lemma smoothed_rows_sum:
  assumes "smoothed_rows e m = Inr m'" "mat K V m" "z < K" "0 < V"
  shows "sum_list (m' ! z) = 1"
proof -
  have "map (map (\<lambda>n. real_of_int n + e)) m ! z \<noteq> []" "z < length (map (map (\<lambda>n. real_of_int n + e)) m)"
    using assms(2-4) by (auto simp: mat_def list_all_length)
  then show ?thesis
    using normalize_rows_sum [OF assms(1) [unfolded smoothed_rows_def]] by blast
qed

lemma scale_at_length: "scale_at row j x = Inr row' \<Longrightarrow> length row' = length row"
  by (auto simp: scale_at_def split: if_splits)

lemma penalise_length:
  "penalise min_rele tm is (row, p) = Inr (row', p') \<Longrightarrow> length row' = length row"
proof (induction "is" arbitrary: row p)
  case Nil
  then show ?case by simp
next
  case (Cons i "is")
  from Cons.prems obtain row1 p1 where
    "length row1 = length row" "penalise min_rele tm is (row1, p1) = Inr (row', p')"
    by (auto simp: bind_err_def split: sum.splits if_splits dest: scale_at_length)
  then show ?case using Cons.IH by fastforce
qed

lemma redistribute_length:
  "redistribute mi tm p q is row = Inr row' \<Longrightarrow> length row' = length row"
proof (induction "is" arbitrary: row)
  case Nil
  then show ?case by simp
next
  case (Cons i "is")
  show ?case
  proof (cases "i \<in> set mi")
    case True
    then show ?thesis using Cons by simp
  next
    case False
    with Cons.prems obtain row1 where
      "length row1 = length row" "redistribute mi tm p q is row1 = Inr row'"
      by (auto simp: bind_err_def split: sum.splits if_splits dest: scale_at_length)
    then show ?thesis using Cons.IH by fastforce
  qed
qed

lemma reweight_length: "reweight min_rele tm row = Inr row' \<Longrightarrow> length row' = length row"
  by (auto simp: reweight_def Let_def bind_err_def split: sum.splits prod.splits
      dest!: penalise_length redistribute_length)


lemma initialize_heap:
  assumes "initialize c X = Inr s"
  shows "\<exists>cmps. smoothed_rows (eta c) (replicate (nat (n_topics c)) (replicate (ncols X) 0)) = Inr cmps \<and>
           heap s = [cmps] \<and> topic_word_new s = 0"
proof -
  obtain ws ds where m: "matrix_to_lists X = (ws, ds)" by (cases "matrix_to_lists X")
  from assms obtain cmps where
    c: "smoothed_rows (eta c) (replicate (nat (n_topics c)) (replicate (ncols X) 0)) = Inr cmps"
    and i: "init_tokens (n_topics c) [0..<total X]
       \<lparr>nzw = replicate (nat (n_topics c)) (replicate (ncols X) 0),
        ndz = replicate (length X) (replicate (nat (n_topics c)) 0),
        nz = replicate (nat (n_topics c)) 0, WS = ws, DS = ds, ZS = replicate (length ws) 0,
        heap = [cmps], components = 0, topic_word_new = 0\<rparr> = Inr s"
    by (auto simp: initialize_def Let_def m bind_err_def split: if_splits sum.splits)
  from init_tokens_refs [OF i] c show ?thesis by simp
qed

lemma adjust_step_heap:
  assumes "adjust_step c X s = Inr s'"
  shows "\<exists>cmps adjust row'. smoothed_rows (eta c) (nzw s) = Inr cmps \<and> adjust < length cmps \<and>
           length row' = length (cmps ! adjust) \<and>
           heap s' ! topic_word_new s' = cmps[adjust := row']"
proof -
  from assms obtain cmps word_id adjust min_rele row' where
    c: "smoothed_rows (eta c) (nzw s) = Inr cmps" "adjust < length cmps"
      "reweight min_rele (word_id ! adjust) (cmps ! adjust) = Inr row'"
      "s' = s\<lparr>components := length (heap s), topic_word_new := length (heap s),
               heap := heap s @ [cmps[adjust := row']]\<rparr>"
    by (auto simp: adjust_step_def Let_def bind_err_def get1_def nth_append
        split: sum.splits if_splits)
  have "length row' = length (cmps ! adjust)" by (rule reweight_length [OF c(3)])
  moreover have "heap s' ! topic_word_new s' = cmps[adjust := row']" by (simp add: c(4))
  ultimately show ?thesis using c(1,2) by blast
qed

lemma reach_heap_mat:
  assumes "rect X" "reach c X s"
  shows "mat (nat (n_topics c)) (ncols X) (heap s ! topic_word_new s)"
  using assms(2)
proof (induction rule: reach.induct)
  case (reach_init s)
  from initialize_heap [OF this] obtain cmps where
    c: "smoothed_rows (eta c) (replicate (nat (n_topics c)) (replicate (ncols X) 0)) = Inr cmps"
      "heap s = [cmps]" "topic_word_new s = 0"
    by blast
  have "mat (nat (n_topics c)) (ncols X) (replicate (nat (n_topics c)) (replicate (ncols X) (0::int)))"
    by (simp add: mat_def list_all_length)
  from smoothed_rows_mat [OF c(1) this] show ?case using c by simp
next
  case (reach_pass s rands s')
  from sample_pass_refs [OF reach_pass(2) [unfolded sample_topics_def]] reach_pass(3)
  show ?case by simp
next
  case (reach_adjust s s')
  from adjust_step_heap [OF reach_adjust(2)] obtain cmps adjust row' where
    c: "smoothed_rows (eta c) (nzw s) = Inr cmps" "adjust < length cmps"
      "length row' = length (cmps ! adjust)"
      "heap s' ! topic_word_new s' = cmps[adjust := row']"
    by blast
  have "mat (nat (n_topics c)) (ncols X) (nzw s)"
    using reach_count_inv [OF assms(1) reach_adjust(1)] by (simp add: count_inv_def shape_def mat_def)
  from smoothed_rows_mat [OF c(1) this] have m: "mat (nat (n_topics c)) (ncols X) cmps" .
  then have "length row' = ncols X" using c(2,3) by (simp add: mat_def list_all_length)
  then have "mat (nat (n_topics c)) (ncols X) (cmps[adjust := row'])"
    using m c(2) by (simp add: mat_def list_all_length nth_list_update)
  then show ?case using c(4) by simp
qed

lemma sum_list_blend_row:
  "length xs = length ys \<Longrightarrow>
     sum_list (map2 (\<lambda>x y. l * x + (1 - l) * y) xs ys) = l * sum_list xs + (1 - l) * sum_list (ys :: real list)"
  by (induction xs ys rule: list_induct2) (simp_all add: algebra_simps)

lemma blend_nth:
  assumes "mat K V A" "mat K V B" "z < K"
  shows "blend l A B ! z = map2 (\<lambda>x y. l * x + (1 - l) * y) (A ! z) (B ! z)"
  using assms by (simp add: blend_def mat_def)

lemma perplexity_tokens: "perplexity K dt tw X = Inr p \<Longrightarrow> total X \<noteq> 0"
  by (auto simp: perplexity_def bind_err_def split: sum.splits if_splits)

lemma rect_total_ncols:
  assumes "rect X" "total X \<noteq> 0"
  shows "0 < ncols X"
proof (rule ccontr)
  assume "\<not> 0 < ncols X"
  then have "\<forall>r\<in>set X. r = []" using assms(1) by (auto simp: rect_def list_all_iff)
  then have "map sum_list X = map (\<lambda>_. 0) X" by (intro map_cong) auto
  then have "total X = 0" by (simp add: total_def)
  then show False using assms(2) by simp
qed

text \<open>
  C3, as the code has it: the final blend is not renormalised. When \<open>fit\<close> succeeds on
  a matrix \<open>X\<close>, then for every topic \<open>z\<close> the row of \<open>components_\<close>, the estimate
  derived from the final counts, sums to one; the row of the public \<open>topic_word_\<close> is
  \<open>lamda\<close> times that row plus \<open>1 - lamda\<close> times the row of \<open>topic_word_new\<close>, the
  adjusted array; it sums to \<open>lamda + (1 - lamda) * S\<close>, where \<open>S\<close> is the sum of the
  adjusted row, and so to one exactly when \<open>lamda = 1\<close> or \<open>S = 1\<close>. With no iteration
  (\<open>n_iter \<le> 0\<close>) no adjustment is made and the row sums to one.
\<close>

theorem fit_topic_word_rows:
  assumes "rect X" "fit c X rands = Inr f" "z < nat (n_topics c)"
  shows "sum_list (heap f ! components f ! z) = 1 \<and>
         heap f ! topic_word f ! z
           = map2 (\<lambda>x y. lamda c * x + (1 - lamda c) * y)
               (heap f ! components f ! z) (heap f ! topic_word_new f ! z) \<and>
         sum_list (heap f ! topic_word f ! z)
           = lamda c + (1 - lamda c) * sum_list (heap f ! topic_word_new f ! z) \<and>
         (sum_list (heap f ! topic_word f ! z) = 1
            \<longleftrightarrow> lamda c = 1 \<or> sum_list (heap f ! topic_word_new f ! z) = 1) \<and>
         (n_iter c \<le> 0 \<longrightarrow> sum_list (heap f ! topic_word f ! z) = 1)"
proof -
  let ?K = "nat (n_topics c)" and ?V = "ncols X"
  from assms(2) obtain s0 t cmps dt p where
    s0: "initialize c X = Inr s0"
    and t: "fit_iter c X rands [0..<nat (n_iter c)] s0 = Inr t"
    and cm: "smoothed_rows (eta c) (nzw t) = Inr cmps"
    and pp: "perplexity (n_topics c) dt (blend (lamda c) cmps (heap t ! topic_word_new t)) X = Inr p"
    and fe: "f = \<lparr>nzw = nzw t, ndz = ndz t, nz = nz t, WS = [], DS = [], ZS = [],
             heap = heap t @ [cmps, dt, blend (lamda c) cmps (heap t ! topic_word_new t)],
             components = length (heap t), topic_word_new = topic_word_new t,
             topic_word = length (heap t) + 2, doc_topic = length (heap t) + 1\<rparr>"
    by (auto simp: fit_def Let_def bind_err_def split: sum.splits)
  have r: "reach c X t" by (rule fit_iter_reach [OF reach_init [OF s0] t])
  have lt: "topic_word_new t < length (heap t)" using reach_refs [OF r] by simp
  have mB: "mat ?K ?V (heap t ! topic_word_new t)" by (rule reach_heap_mat [OF assms(1) r])
  have "mat ?K ?V (nzw t)"
    using reach_count_inv [OF assms(1) r] by (simp add: count_inv_def shape_def mat_def)
  from smoothed_rows_mat [OF cm this] have mA: "mat ?K ?V cmps" .
  have V: "0 < ?V" by (rule rect_total_ncols [OF assms(1) perplexity_tokens [OF pp]])
  have one: "sum_list (cmps ! z) = 1"
    by (rule smoothed_rows_sum [OF cm \<open>mat ?K ?V (nzw t)\<close> assms(3) V])
  have h: "heap f ! components f = cmps" "heap f ! topic_word_new f = heap t ! topic_word_new t"
    "heap f ! topic_word f = blend (lamda c) cmps (heap t ! topic_word_new t)"
    using lt by (simp_all add: fe nth_append)
  have len: "length (cmps ! z) = length (heap t ! topic_word_new t ! z)"
    using mA mB assms(3) by (simp add: mat_def list_all_length)
  have row: "blend (lamda c) cmps (heap t ! topic_word_new t) ! z
             = map2 (\<lambda>x y. lamda c * x + (1 - lamda c) * y) (cmps ! z) (heap t ! topic_word_new t ! z)"
    by (rule blend_nth [OF mA mB assms(3)])
  have sm: "sum_list (blend (lamda c) cmps (heap t ! topic_word_new t) ! z)
            = lamda c + (1 - lamda c) * sum_list (heap t ! topic_word_new t ! z)"
    unfolding row using sum_list_blend_row [OF len, of "lamda c"] one by simp
  have iff: "lamda c + (1 - lamda c) * q = 1 \<longleftrightarrow> lamda c = 1 \<or> q = 1" for q :: real
  proof -
    have "lamda c + (1 - lamda c) * q - 1 = (1 - lamda c) * (q - 1)" by (simp add: algebra_simps)
    then have "lamda c + (1 - lamda c) * q = 1 \<longleftrightarrow> (1 - lamda c) * (q - 1) = 0" by auto
    then show ?thesis by auto
  qed
  have none: "sum_list (heap t ! topic_word_new t ! z) = 1" if "n_iter c \<le> 0"
  proof -
    from that t have ts: "t = s0" by simp
    from initialize_heap [OF s0] obtain c0 where
      c0: "smoothed_rows (eta c) (replicate ?K (replicate ?V 0)) = Inr c0"
      and hp: "heap s0 = [c0]" "topic_word_new s0 = 0"
      by blast
    have "mat ?K ?V (replicate ?K (replicate ?V (0::int)))"
      by (simp add: mat_def list_all_length)
    from smoothed_rows_sum [OF c0 this assms(3) V] show ?thesis by (simp add: ts hp)
  qed
  show ?thesis unfolding h using one row sm iff none by simp
qed

theorem fit_topic_word_rows_witness:
  "rect demo_X \<and> fit demo_config demo_X demo_rands = Inr demo_fitted \<and>
   0 < nat (n_topics demo_config) \<and>
   sum_list (heap demo_fitted ! components demo_fitted ! 0) = 1 \<and>
   sum_list (heap demo_fitted ! topic_word demo_fitted ! 0)
     = lamda demo_config
       + (1 - lamda demo_config) * sum_list (heap demo_fitted ! topic_word_new demo_fitted ! 0)"
proof -
  have x: "rect demo_X" by (simp add: rect_def demo_X_def ncols_def)
  have z: "0 < nat (n_topics demo_config)" by (simp add: demo_config_def)
  show ?thesis using x z demo_fit fit_topic_word_rows [OF x demo_fit z] by blast
qed

text \<open>
  The claim as stated fails: the configuration of the worked example, with \<open>lamda = 1/2\<close>,
  is accepted by the constructor, fitting succeeds, the adjusted row sums to \<open>88/90\<close>,
  and the one row of the public \<open>topic_word_\<close> sums to \<open>89/90\<close>.
\<close>

theorem fit_row_sum_counterexample:
  "LDA_init demo_config = Inr demo_config \<and>
   fit demo_config demo_X demo_rands = Inr demo_fitted \<and>
   lamda demo_config = 1 / 2 \<and>
   sum_list (heap demo_fitted ! topic_word_new demo_fitted ! 0) = 88 / 90 \<and>
   sum_list (heap demo_fitted ! topic_word demo_fitted ! 0) = 89 / 90 \<and>
   sum_list (heap demo_fitted ! topic_word demo_fitted ! 0) \<noteq> 1"
proof -
  have "LDA_init demo_config = Inr demo_config" by (simp add: LDA_init_def demo_config_def)
  moreover have "lamda demo_config = 1 / 2" by (simp add: demo_config_def)
  moreover have "sum_list (heap demo_fitted ! topic_word_new demo_fitted ! 0) = 88 / 90"
    by (simp add: demo_fitted_def demo_adjusted_def)
  moreover have "sum_list (heap demo_fitted ! topic_word demo_fitted ! 0) = 89 / 90"
    by (simp add: demo_fitted_def demo_blend_def)
  ultimately show ?thesis using demo_fit by simp
qed

end
